theory Spec2Isabelle
  imports Complex_Main "HOL-Library.Multiset"
begin

section \<open>Python values shared by the modules\<close>

text \<open>
  A Python \<open>str\<close> is a sequence of Unicode code points; a code point is a natural
  number. \<open>py\<close> turns an ASCII literal into such a string.
\<close>

type_synonym pystr = "nat list"

definition py :: "string \<Rightarrow> pystr" where
  "py s = map of_char s"

text \<open>
  The exception classes the modules raise or name. \<open>RateLimitError\<close> and \<open>APIError\<close> are
  the two classes \<open>openai_api_chat.py\<close> passes as \<open>backoff_on_errors\<close>.
\<close>

datatype exc_class =
  RateLimitError | APIError | ServiceError
  | ValueError | TypeError | IndexError | KeyError | AttributeError
  | ZeroDivisionError | RuntimeError

section \<open>rate\_controller.py: the retry loops\<close>

text \<open>
  The fields of \<open>RateController.__init__\<close>. \<open>sw\<close> is the queue \<open>_sw\<close> of admission
  timestamps, oldest first. Times and delays are Python floats, read here as real numbers.
  The two locks \<open>_t_lock\<close> and \<open>_a_lock\<close> record their holder while it sleeps inside the
  gate: the time at which its sleep ends.
\<close>

record 'k rate_controller =
  limit :: int
  period :: real
  sw :: "real list"
  t_lock :: "real option"
  a_lock :: "real option"
  backoff_init_delay :: real
  backoff_delay :: real
  backoff_max_retry :: int
  backoff_exp_base :: real
  backoff_on_errors :: "'k list"

text \<open>\<open>RateController(limit, period_sec, backoff_max_retry, backoff_init_delay,
  backoff_exp_base, backoff_on_errors)\<close>.\<close>

definition RateController ::
  "int \<Rightarrow> real \<Rightarrow> int \<Rightarrow> real \<Rightarrow> real \<Rightarrow> 'k list \<Rightarrow> 'k rate_controller" where
  "RateController n_limit period_sec max_retry init_delay exp_base on_errors =
     \<lparr>limit = n_limit, period = period_sec, sw = [], t_lock = None, a_lock = None,
      backoff_init_delay = init_delay, backoff_delay = init_delay,
      backoff_max_retry = max_retry, backoff_exp_base = exp_base,
      backoff_on_errors = on_errors\<rparr>"

text \<open>
  A Python object that is either an exception class or an instance of one: the tuple
  \<open>backoff_on_errors\<close> holds classes, the caught \<open>e\<close> is an instance.
\<close>

datatype 'k pyobj = Class 'k | Instance 'k

text \<open>One invocation of the wrapped operation either returns or raises an exception.\<close>

datatype ('k, 'a) outcome = Return 'a | Raise 'k

text \<open>\<open>Exception(f'Maximum retry reached: {e}')\<close>: the only exception the loops raise.\<close>

datatype 'k failure = MaximumRetryReached 'k

text \<open>
  What a caller does besides invoking the operation: it passes the admission gate
  (\<open>_block_by_rate\<close> or \<open>_ablock_by_rate\<close> under the lock), or it sleeps for a delay.
\<close>

datatype effect = Admit | Sleep real

type_synonym ('k, 'a) run_result = "('k failure + 'a) \<times> effect list \<times> 'k rate_controller"

definition after :: "effect list \<Rightarrow> ('k, 'a) run_result \<Rightarrow> ('k, 'a) run_result" where
  "after es r = (case r of (x, tr, rc) \<Rightarrow> (x, es @ tr, rc))"

text \<open>
  \<open>any(isinstance(e, e_type) for e_type in self.backoff_on_errors)\<close>, for an instance
  \<open>e\<close> of class \<open>k\<close>; \<open>issubclass\<close> is the class hierarchy of the exceptions.
\<close>

definition any_isinstance :: "('k \<Rightarrow> 'k \<Rightarrow> bool) \<Rightarrow> 'k \<Rightarrow> 'k list \<Rightarrow> bool" where
  "any_isinstance issubclass k e_types = list_ex (issubclass k) e_types"

text \<open>
  \<open>RateController._arun\<close>. \<open>func n\<close> is the outcome of the invocation made when
  \<open>num_retry = n\<close>, \<open>uniform n\<close> the value \<open>random.uniform(-1, 1)\<close> draws in that round.
  The loop stops: every round that does not return or raise adds one to \<open>num_retry\<close>.
\<close>

function arun ::
  "('k \<Rightarrow> 'k \<Rightarrow> bool) \<Rightarrow> (nat \<Rightarrow> ('k, 'a) outcome) \<Rightarrow> (nat \<Rightarrow> real) \<Rightarrow>
   'k rate_controller \<Rightarrow> nat \<Rightarrow> ('k, 'a) run_result" where
  "arun issubclass func uniform rc num_retry =
     (case func num_retry of
        Return ret \<Rightarrow> (Inr ret, [Admit], rc\<lparr>backoff_delay := backoff_init_delay rc\<rparr>)
      | Raise e \<Rightarrow>
          if int (num_retry + 1) > backoff_max_retry rc
          then (Inl (MaximumRetryReached e), [Admit], rc)
          else if any_isinstance issubclass e (backoff_on_errors rc)
          then after [Admit, Sleep (backoff_delay rc)]
                 (arun issubclass func uniform
                    (rc\<lparr>backoff_delay :=
                        min (backoff_delay rc * (backoff_exp_base rc + uniform num_retry)) 300\<rparr>)
                    (num_retry + 1))
          else after [Admit, Sleep (backoff_init_delay rc)]
                 (arun issubclass func uniform rc (num_retry + 1)))"
  by pat_completeness auto
termination
  by (relation "measure (\<lambda>(issubclass, func, uniform, rc, num_retry).
        nat (backoff_max_retry rc + 1 - int num_retry))") auto

declare arun.simps [simp del]

text \<open>
  \<open>RateController._run\<close>. The delay is the local variable \<open>backoff_delay\<close>; the test is
  \<open>e in self.backoff_on_errors\<close>, membership of the instance in the tuple of classes.
\<close>

function run ::
  "(nat \<Rightarrow> ('k, 'a) outcome) \<Rightarrow> (nat \<Rightarrow> real) \<Rightarrow>
   'k rate_controller \<Rightarrow> nat \<Rightarrow> real \<Rightarrow> ('k, 'a) run_result" where
  "run func uniform rc num_retry backoff_delay_local =
     (case func num_retry of
        Return ret \<Rightarrow> (Inr ret, [Admit], rc)
      | Raise e \<Rightarrow>
          if int (num_retry + 1) > backoff_max_retry rc
          then (Inl (MaximumRetryReached e), [Admit], rc)
          else if Instance e \<in> set (map Class (backoff_on_errors rc))
          then after [Admit, Sleep backoff_delay_local]
                 (run func uniform rc (num_retry + 1)
                    (backoff_delay_local * (backoff_exp_base rc + uniform num_retry)))
          else after [Admit] (run func uniform rc (num_retry + 1) backoff_delay_local))"
  by pat_completeness auto
termination
  by (relation "measure (\<lambda>(func, uniform, rc, num_retry, d).
        nat (backoff_max_retry rc + 1 - int num_retry))") auto

declare run.simps [simp del]

text \<open>The wrappers of \<open>apply\<close>: both loops start with \<open>num_retry = 0\<close>.\<close>

definition apply_async ::
  "('k \<Rightarrow> 'k \<Rightarrow> bool) \<Rightarrow> (nat \<Rightarrow> ('k, 'a) outcome) \<Rightarrow> (nat \<Rightarrow> real) \<Rightarrow>
   'k rate_controller \<Rightarrow> ('k, 'a) run_result" where
  "apply_async issubclass func uniform rc = arun issubclass func uniform rc 0"

definition apply_sync ::
  "(nat \<Rightarrow> ('k, 'a) outcome) \<Rightarrow> (nat \<Rightarrow> real) \<Rightarrow> 'k rate_controller \<Rightarrow> ('k, 'a) run_result" where
  "apply_sync func uniform rc = run func uniform rc 0 (backoff_init_delay rc)"

subsection \<open>The retry loop of the asynchronous form\<close>

lemma after_fst: "fst (after es r) = fst r"
  by (simp add: after_def split: prod.splits)

lemma after_trace: "fst (snd (after es r)) = es @ fst (snd r)"
  by (simp add: after_def split: prod.splits)

lemma arun_exhausts:
  assumes "backoff_max_retry rc = int m" and "n \<le> m"
    and "\<forall>i. n \<le> i \<and> i \<le> m \<longrightarrow> func i = Raise (errs i)"
  shows "fst (arun sub func uniform rc n) = Inl (MaximumRetryReached (errs m))
       \<and> count_list (fst (snd (arun sub func uniform rc n))) Admit = m + 1 - n"
  using assms
proof (induction "m - n" arbitrary: n rc)
  case 0
  then have nm: "n = m" by simp
  with "0.prems" have "func m = Raise (errs m)" by simp
  with nm "0.prems"(1) show ?case
    by (simp add: arun.simps [of sub func uniform rc m])
next
  case (Suc d)
  then have lt: "n < m" by simp
  from Suc.prems have fn: "func n = Raise (errs n)" by simp
  let ?rc' = "rc\<lparr>backoff_delay :=
      min (backoff_delay rc * (backoff_exp_base rc + uniform n)) 300\<rparr>"
  have d: "d = m - (n + 1)" using Suc.hyps(2) by simp
  have all: "\<forall>i. n + 1 \<le> i \<and> i \<le> m \<longrightarrow> func i = Raise (errs i)"
    using Suc.prems(3) by simp
  have le: "n + 1 \<le> m" using lt by simp
  have IH1: "fst (arun sub func uniform ?rc' (n + 1)) = Inl (MaximumRetryReached (errs m))
     \<and> count_list (fst (snd (arun sub func uniform ?rc' (n + 1)))) Admit = m + 1 - (n + 1)"
    using Suc.hyps(1) [OF d _ le all, of ?rc'] Suc.prems(1) by simp
  have IH2: "fst (arun sub func uniform rc (n + 1)) = Inl (MaximumRetryReached (errs m))
     \<and> count_list (fst (snd (arun sub func uniform rc (n + 1)))) Admit = m + 1 - (n + 1)"
    using Suc.hyps(1) [OF d _ le all, of rc] Suc.prems(1) by simp
  show ?case
    using fn lt Suc.prems(1) IH1 IH2
    by (simp add: arun.simps [of sub func uniform rc n] after_fst after_trace)
qed

text \<open>
  Claim C8. In the retry loop of \<open>_arun\<close>: a successful invocation resets
  \<open>self.backoff_delay\<close> to the initial delay and returns; after a failure whose class is in
  \<open>backoff_on_errors\<close> the caller sleeps the current delay, and the stored delay becomes
  its product with \<open>base + uniform(-1, 1)\<close>, capped at 300; after any other failure the
  caller sleeps the initial delay and the stored delay is unchanged; when \<open>num_retry\<close>
  exceeds \<open>backoff_max_retry\<close> the loop raises \<open>Maximum retry reached\<close> around the last
  failure. So an operation that fails on every one of its first \<open>m + 1\<close> invocations, under
  \<open>backoff_max_retry = m\<close>, is invoked exactly \<open>m + 1\<close> times and the error wraps the
  failure of the last invocation.
\<close>

theorem arun_retry_backoff:
  "(func n = Return ret \<longrightarrow>
      arun sub func uniform rc n =
        (Inr ret, [Admit], rc\<lparr>backoff_delay := backoff_init_delay rc\<rparr>))
   \<and> (func n = Raise e \<and> int (n + 1) \<le> backoff_max_retry rc
        \<and> any_isinstance sub e (backoff_on_errors rc) \<longrightarrow>
      arun sub func uniform rc n =
        after [Admit, Sleep (backoff_delay rc)]
          (arun sub func uniform
             (rc\<lparr>backoff_delay :=
                 min (backoff_delay rc * (backoff_exp_base rc + uniform n)) 300\<rparr>) (n + 1)))
   \<and> (func n = Raise e \<and> int (n + 1) \<le> backoff_max_retry rc
        \<and> \<not> any_isinstance sub e (backoff_on_errors rc) \<longrightarrow>
      arun sub func uniform rc n =
        after [Admit, Sleep (backoff_init_delay rc)] (arun sub func uniform rc (n + 1)))
   \<and> (func n = Raise e \<and> int (n + 1) > backoff_max_retry rc \<longrightarrow>
      arun sub func uniform rc n = (Inl (MaximumRetryReached e), [Admit], rc))
   \<and> (backoff_max_retry rc = int m \<and> (\<forall>i. i \<le> m \<longrightarrow> func i = Raise (errs i)) \<longrightarrow>
      fst (apply_async sub func uniform rc) = Inl (MaximumRetryReached (errs m))
      \<and> count_list (fst (snd (apply_async sub func uniform rc))) Admit = m + 1)"
proof -
  have "backoff_max_retry rc = int m \<and> (\<forall>i. i \<le> m \<longrightarrow> func i = Raise (errs i)) \<longrightarrow>
      fst (apply_async sub func uniform rc) = Inl (MaximumRetryReached (errs m))
      \<and> count_list (fst (snd (apply_async sub func uniform rc))) Admit = m + 1"
    using arun_exhausts [of rc m 0 func errs sub uniform]
    by (simp add: apply_async_def)
  then show ?thesis
    by (simp add: arun.simps [of sub func uniform rc n])
qed

text \<open>
  The loop on the controller of \<open>openai_api_chat.py\<close>: two eligible failures, one
  other failure, then success; and a run that exhausts \<open>backoff_max_retry = 1\<close>.
\<close>

theorem arun_retry_backoff_witness:
  "apply_async (=)
     (\<lambda>n. if n = 0 then Raise RateLimitError else if n = 1 then Raise APIError
          else if n = 2 then Raise ValueError else Return (42::nat))
     (\<lambda>n. 1 / 2) (RateController 1 (7 / 2) 10 1 2 [RateLimitError, APIError])
   = (Inr 42, [Admit, Sleep 1, Admit, Sleep (5 / 2), Admit, Sleep 1, Admit],
      RateController 1 (7 / 2) 10 1 2 [RateLimitError, APIError])
   \<and> fst (apply_async (=)
     (\<lambda>n. if n = 0 then (Raise RateLimitError :: (exc_class, nat) outcome) else Raise ValueError)
     (\<lambda>n. 1 / 2) (RateController 1 (7 / 2) 1 1 2 [RateLimitError, APIError]))
     = Inl (MaximumRetryReached ValueError)"
proof -
  let ?f = "\<lambda>n::nat. if n = 0 then Raise RateLimitError else if n = 1 then Raise APIError
          else if n = 2 then Raise ValueError else Return (42::nat)"
  let ?u = "\<lambda>n::nat. (1::real) / 2"
  let ?rc = "RateController 1 (7 / 2) 10 1 2 [RateLimitError, APIError]"
  let ?g = "\<lambda>n::nat. if n = 0 then (Raise RateLimitError :: (exc_class, nat) outcome)
          else Raise ValueError"
  let ?rc1 = "RateController 1 (7 / 2) 1 1 2 [RateLimitError, APIError]"
  note returns = arun_retry_backoff [THEN conjunct1]
  note eligible = arun_retry_backoff [THEN conjunct2, THEN conjunct1]
  note other = arun_retry_backoff [THEN conjunct2, THEN conjunct2, THEN conjunct1]
  note exhausted =
    arun_retry_backoff [THEN conjunct2, THEN conjunct2, THEN conjunct2, THEN conjunct2]
  have s3: "arun (=) ?f ?u (?rc\<lparr>backoff_delay := 25 / 4\<rparr>) 3
      = (Inr 42, [Admit], ?rc\<lparr>backoff_delay := 1\<rparr>)"
    using returns [of ?f 3 42 "(=)" ?u "?rc\<lparr>backoff_delay := 25 / 4\<rparr>"]
    by (simp add: RateController_def eval_nat_numeral)
  have s2: "arun (=) ?f ?u (?rc\<lparr>backoff_delay := 25 / 4\<rparr>) 2
      = after [Admit, Sleep 1] (arun (=) ?f ?u (?rc\<lparr>backoff_delay := 25 / 4\<rparr>) 3)"
    using other [of ?f 2 ValueError "?rc\<lparr>backoff_delay := 25 / 4\<rparr>" "(=)" ?u]
    by (simp add: RateController_def any_isinstance_def eval_nat_numeral)
  have s1: "arun (=) ?f ?u (?rc\<lparr>backoff_delay := 5 / 2\<rparr>) 1
      = after [Admit, Sleep (5 / 2)] (arun (=) ?f ?u (?rc\<lparr>backoff_delay := 25 / 4\<rparr>) 2)"
    using eligible [of ?f 1 APIError "?rc\<lparr>backoff_delay := 5 / 2\<rparr>" "(=)" ?u]
    by (simp add: RateController_def any_isinstance_def eval_nat_numeral)
  have s0: "arun (=) ?f ?u ?rc 0
      = after [Admit, Sleep 1] (arun (=) ?f ?u (?rc\<lparr>backoff_delay := 5 / 2\<rparr>) 1)"
    using eligible [of ?f 0 RateLimitError ?rc "(=)" ?u]
    by (simp add: RateController_def any_isinstance_def eval_nat_numeral)
  have e: "fst (apply_async (=) ?g ?u ?rc1) = Inl (MaximumRetryReached ValueError)"
    using exhausted [of ?rc1 1 ?g "\<lambda>i. if i = 0 then RateLimitError else ValueError" "(=)" ?u]
    by (simp add: RateController_def)
  show ?thesis
    using s0 s1 s2 s3 e by (simp add: apply_async_def after_def RateController_def)
qed

text \<open>
  Claim C3. The two forms of the executor do not behave alike. On an operation that fails
  once with \<open>RateLimitError\<close>, a class of \<open>backoff_on_errors\<close>, and then returns, \<open>_arun\<close>
  sleeps the backoff delay before it retries, and \<open>_run\<close> retries at once: its test
  \<open>e in self.backoff_on_errors\<close> compares the instance with the classes and never holds.
  On a failure of another class \<open>_arun\<close> sleeps the initial delay and \<open>_run\<close> does not sleep.
\<close>

theorem sync_async_backoff_differ:
  "apply_async (=)
       (\<lambda>n. if n = 0 then Raise RateLimitError else Return (7::nat)) (\<lambda>n. 0)
       (RateController 1 (7 / 2) 10 1 2 [RateLimitError, APIError])
     = (Inr 7, [Admit, Sleep 1, Admit],
        RateController 1 (7 / 2) 10 1 2 [RateLimitError, APIError])
   \<and> apply_sync
       (\<lambda>n. if n = 0 then Raise RateLimitError else Return (7::nat)) (\<lambda>n. 0)
       (RateController 1 (7 / 2) 10 1 2 [RateLimitError, APIError])
     = (Inr 7, [Admit, Admit],
        RateController 1 (7 / 2) 10 1 2 [RateLimitError, APIError])
   \<and> fst (snd (apply_async (=)
       (\<lambda>n. if n = 0 then Raise ValueError else Return (7::nat)) (\<lambda>n. 0)
       (RateController 1 (7 / 2) 10 1 2 [RateLimitError, APIError])))
     = [Admit, Sleep 1, Admit]
   \<and> fst (snd (apply_sync
       (\<lambda>n. if n = 0 then Raise ValueError else Return (7::nat)) (\<lambda>n. 0)
       (RateController 1 (7 / 2) 10 1 2 [RateLimitError, APIError])))
     = [Admit, Admit]"
  by (simp add: apply_async_def apply_sync_def RateController_def arun.simps run.simps
      any_isinstance_def after_def)

section \<open>rate\_controller.py: the admission gate\<close>

text \<open>
  The two forms of the wrapper: \<open>_run\<close> passes \<open>_block_by_rate\<close> under \<open>_t_lock\<close>, \<open>_arun\<close>
  passes \<open>_ablock_by_rate\<close> under \<open>_a_lock\<close>. The two gates have the same body and work on
  the one queue \<open>_sw\<close>.
\<close>

datatype form = Sync | Async

definition lock_of :: "form \<Rightarrow> 'k rate_controller \<Rightarrow> real option" where
  "lock_of f rc = (case f of Sync \<Rightarrow> t_lock rc | Async \<Rightarrow> a_lock rc)"

definition set_lock :: "form \<Rightarrow> real option \<Rightarrow> 'k rate_controller \<Rightarrow> 'k rate_controller" where
  "set_lock f l rc = (case f of Sync \<Rightarrow> rc\<lparr>t_lock := l\<rparr> | Async \<Rightarrow> rc\<lparr>a_lock := l\<rparr>)"

text \<open>
  The controller in time: the last reading of \<open>time.time()\<close>, and the timestamps put into
  the window so far, the most recent first. A caller is admitted when its timestamp is
  put: it leaves the gate and calls the wrapped function.
\<close>

record 'k gate_state =
  controller :: "'k rate_controller"
  clock :: real
  admissions :: "real list"

definition gate_start :: "'k rate_controller \<Rightarrow> 'k gate_state" where
  "gate_start rc = \<lparr>controller = rc, clock = 0, admissions = []\<rparr>"

text \<open>
  \<open>Queue(maxsize=limit)\<close>: \<open>full()\<close> is \<open>0 < maxsize <= qsize()\<close>, so a queue of
  \<open>maxsize <= 0\<close> is never full. \<open>put\<close> waits on a full queue until an item is taken:
  the caller cannot go on, which is \<open>None\<close> here.
\<close>

definition full :: "'k rate_controller \<Rightarrow> bool" where
  "full rc \<longleftrightarrow> 0 < limit rc \<and> limit rc \<le> int (length (sw rc))"

definition put :: "real \<Rightarrow> 'k gate_state \<Rightarrow> 'k gate_state option" where
  "put t s =
     (if full (controller s) then None
      else Some (s\<lparr>controller := (controller s)\<lparr>sw := sw (controller s) @ [t]\<rparr>,
                   clock := t, admissions := t # admissions s\<rparr>))"

text \<open>
  What the callers do, as events in time. \<open>Enter f now t\<close>: a caller of form \<open>f\<close> takes
  the lock of its form, which is free, and runs the gate from \<open>now = time.time()\<close> to its
  sleep or, when it does not sleep, to its end, where \<open>t\<close> is the second reading of the
  clock. A caller that sleeps keeps the lock; the lock records when its sleep ends.
  \<open>Wake f t\<close>: the caller sleeping in the gate of form \<open>f\<close> goes on at time \<open>t\<close>, not
  before its sleep ends, puts \<open>time.time()\<close> and releases the lock. Other callers run
  between the two events; a caller that finds the lock of its form taken waits, so its
  \<open>Enter\<close> comes after the \<open>Wake\<close>. Readings of the clock never decrease. An event that
  cannot happen in a state gives \<open>None\<close>.
\<close>

datatype event = Enter form real real | Wake form real

fun step :: "'k gate_state \<Rightarrow> event \<Rightarrow> 'k gate_state option" where
  "step s (Enter f now t) =
     (let rc = controller s in
      if lock_of f rc \<noteq> None \<or> now < clock s \<or> t < now then None
      else if full rc
      then let last = hd (sw rc);
               rc' = rc\<lparr>sw := tl (sw rc)\<rparr>;
               lag = now - last
           in if lag < period rc
              then Some (s\<lparr>controller := set_lock f (Some (now + (period rc - lag))) rc',
                           clock := now\<rparr>)
              else put t (s\<lparr>controller := rc'\<rparr>)
      else put t s)"
| "step s (Wake f t) =
     (let rc = controller s in
      case lock_of f rc of
        None \<Rightarrow> None
      | Some wake \<Rightarrow>
          if t < clock s \<or> t < wake then None
          else put t (s\<lparr>controller := set_lock f None rc\<rparr>))"

fun run_events :: "'k gate_state \<Rightarrow> event list \<Rightarrow> 'k gate_state option" where
  "run_events s [] = Some s"
| "run_events s (e # es) = (case step s e of None \<Rightarrow> None | Some s' \<Rightarrow> run_events s' es)"


subsection \<open>Each gate alone keeps the rate\<close>

text \<open>
  The rate limit: no window \<open>(t - T, t]\<close> holds more than \<open>N\<close> admissions. (Two admissions
  exactly \<open>T\<close> apart pass the test \<open>lag < self.period\<close>, so the window is open at its old
  end.)
\<close>

definition within_rate :: "nat \<Rightarrow> real \<Rightarrow> real list \<Rightarrow> bool" where
  "within_rate N T ts \<longleftrightarrow> (\<forall>t. length (filter (\<lambda>x. t - T < x \<and> x \<le> t) ts) \<le> N)"

fun event_form :: "event \<Rightarrow> form" where
  "event_form (Enter f now t) = f"
| "event_form (Wake f t) = f"

text \<open>Each admission comes at least \<open>T\<close> after the one \<open>N\<close> places before it.\<close>

fun spaced :: "nat \<Rightarrow> real \<Rightarrow> real list \<Rightarrow> bool" where
  "spaced N T [] = True"
| "spaced N T (t # ts) = ((N \<le> length ts \<longrightarrow> ts ! (N - 1) + T \<le> t) \<and> spaced N T ts)"

lemma spaced_within_rate:
  assumes "0 < N" and "sorted_wrt (\<ge>) ts" and "spaced N T ts"
  shows "length (filter (\<lambda>x. t - T < x \<and> x \<le> t) ts) \<le> N"
  using assms(2,3)
proof (induction ts)
  case Nil
  show ?case by simp
next
  case (Cons x rest)
  let ?P = "\<lambda>x. t - T < x \<and> x \<le> t"
  from Cons have IH: "length (filter ?P rest) \<le> N" by simp
  show ?case
  proof (cases "?P x")
    case False
    then have "filter ?P (x # rest) = filter ?P rest" by simp
    with IH show ?thesis by simp
  next
    case True
    have few: "length (filter ?P rest) \<le> N - 1"
    proof (cases "N \<le> length rest")
      case short: False
      have "length (filter ?P rest) \<le> length rest"
        by (rule length_filter_le)
      also from short have "\<dots> \<le> N - 1"
        by simp
      finally show ?thesis .
    next
      case long: True
      with Cons.prems(2) have gap: "rest ! (N - 1) + T \<le> x" by simp
      from Cons.prems(1) have sorted_rest: "sorted_wrt (\<ge>) rest" by simp
      have old: "y \<le> rest ! (N - 1)" if "y \<in> set (drop (N - 1) rest)" for y
      proof -
        from that obtain j where j: "j < length (drop (N - 1) rest)"
          and y: "y = drop (N - 1) rest ! j"
          by (auto simp: in_set_conv_nth)
        from j have lt: "N - 1 + j < length rest" by simp
        have "rest ! (N - 1 + j) \<le> rest ! (N - 1)"
        proof (cases "j = 0")
          case True
          then show ?thesis by simp
        next
          case False
          then have "N - 1 < N - 1 + j" by simp
          with sorted_rest lt show ?thesis
            by (simp add: sorted_wrt_iff_nth_less)
        qed
        with y lt show ?thesis by simp
      qed
      have none: "filter ?P (drop (N - 1) rest) = []"
      proof -
        have "\<not> ?P y" if "y \<in> set (drop (N - 1) rest)" for y
          using old [OF that] gap True by simp
        then show ?thesis by (simp add: filter_empty_conv)
      qed
      have "filter ?P rest = filter ?P (take (N - 1) rest @ drop (N - 1) rest)"
        by simp
      also have "\<dots> = filter ?P (take (N - 1) rest)"
        unfolding filter_append none by simp
      finally have "length (filter ?P rest) = length (filter ?P (take (N - 1) rest))"
        by simp
      also have "\<dots> \<le> length (take (N - 1) rest)"
        by (rule length_filter_le)
      also have "\<dots> \<le> N - 1"
        by simp
      finally show ?thesis .
    qed
    from True have "filter ?P (x # rest) = x # filter ?P rest" by simp
    with few assms(1) show ?thesis by simp
  qed
qed

text \<open>
  What holds of the controller while all callers are of one form \<open>f\<close>: the admissions are
  in order of time and spaced, the lock of the other form is free, and the queue holds the
  latest \<open>N\<close> admissions, or the latest \<open>N - 1\<close> while a caller sleeps in the gate, whose
  sleep ends no sooner than \<open>T\<close> after the admission it took out.
\<close>

definition gate_inv :: "form \<Rightarrow> nat \<Rightarrow> real \<Rightarrow> 'k gate_state \<Rightarrow> bool" where
  "gate_inv f N T s \<longleftrightarrow>
     limit (controller s) = int N \<and> period (controller s) = T \<and> 0 < N
     \<and> sorted_wrt (\<ge>) (admissions s) \<and> (\<forall>x \<in> set (admissions s). x \<le> clock s)
     \<and> spaced N T (admissions s)
     \<and> (\<forall>g. g \<noteq> f \<longrightarrow> lock_of g (controller s) = None)
     \<and> (case lock_of f (controller s) of
           None \<Rightarrow> sw (controller s) = rev (take N (admissions s))
         | Some wake \<Rightarrow>
             N \<le> length (admissions s) \<and> sw (controller s) = rev (take (N - 1) (admissions s))
             \<and> admissions s ! (N - 1) + T \<le> wake)"

lemma lock_of_set_lock [simp]:
  "lock_of g (set_lock f l rc) = (if g = f then l else lock_of g rc)"
  "sw (set_lock f l rc) = sw rc"
  "limit (set_lock f l rc) = limit rc"
  "period (set_lock f l rc) = period rc"
  "lock_of g (rc\<lparr>sw := q\<rparr>) = lock_of g rc"
  by (cases f; cases g; simp add: lock_of_def set_lock_def)+

lemma put_keeps_inv:
  assumes "limit (controller s) = int N" and "period (controller s) = T" and "0 < N"
    and "sorted_wrt (\<ge>) (admissions s)" and "\<forall>x \<in> set (admissions s). x \<le> t"
    and "spaced N T (admissions s)"
    and "N \<le> length (admissions s) \<longrightarrow> admissions s ! (N - 1) + T \<le> t"
    and "sw (controller s) = rev (take (N - 1) (admissions s))"
    and "\<forall>g. lock_of g (controller s) = None"
  shows "\<exists>s'. put t s = Some s' \<and> gate_inv f N T s'"
proof -
  have len: "length (sw (controller s)) \<le> N - 1"
    using assms(8) by simp
  with assms(1,3) have nf: "\<not> full (controller s)"
    by (auto simp: full_def)
  have tk: "take N (t # admissions s) = t # take (N - 1) (admissions s)"
    using assms(3) by (cases N) simp_all
  show ?thesis
    using nf assms tk
    by (simp add: put_def gate_inv_def lock_of_def split: form.splits)
qed

lemma step_keeps_inv:
  assumes inv: "gate_inv f N T s" and st: "step s e = Some s'" and form: "event_form e = f"
  shows "gate_inv f N T s'"
proof -
  let ?rc = "controller s"
  let ?adm = "admissions s"
  from inv have lim: "limit ?rc = int N" and per: "period ?rc = T" and pos: "0 < N"
    and srt: "sorted_wrt (\<ge>) ?adm" and past: "\<forall>x \<in> set ?adm. x \<le> clock s"
    and sp: "spaced N T ?adm" and others: "\<forall>g. g \<noteq> f \<longrightarrow> lock_of g ?rc = None"
    by (simp_all add: gate_inv_def)
  show ?thesis
  proof (cases e)
    case (Enter f' now t)
    with form have f': "f' = f" by simp
    from st Enter f' have free: "lock_of f ?rc = None" and now: "clock s \<le> now" and t: "now \<le> t"
      by (auto simp: Let_def split: if_splits)
    from free others have all_free: "\<forall>g. lock_of g ?rc = None"
      by metis
    from inv free have q: "sw ?rc = rev (take N ?adm)"
      by (simp add: gate_inv_def)
    from past now t have before: "\<forall>x \<in> set ?adm. x \<le> t"
      by force
    show ?thesis
    proof (cases "full ?rc")
      case False
      with q lim pos have short: "length ?adm < N"
        by (auto simp: full_def min_def split: if_splits)
      with q have q': "sw ?rc = rev (take (N - 1) ?adm)"
        by simp
      from short have gap: "N \<le> length ?adm \<longrightarrow> ?adm ! (N - 1) + T \<le> t"
        by simp
      from put_keeps_inv [OF lim per pos srt before sp gap q' all_free, of f]
        st Enter f' free now t False
      show ?thesis
        by (auto simp: Let_def)
    next
      case True
      with q lim have long: "N \<le> length ?adm"
        by (auto simp: full_def min_def split: if_splits)
      with pos have ne: "take N ?adm \<noteq> []"
        by auto
      have last: "hd (sw ?rc) = ?adm ! (N - 1)"
        using q ne long pos by (simp add: hd_rev last_conv_nth)
      have rest: "tl (sw ?rc) = rev (take (N - 1) ?adm)"
        using q long by (simp add: butlast_take flip: butlast_rev rev_swap)
      let ?s1 = "s\<lparr>controller := ?rc\<lparr>sw := tl (sw ?rc)\<rparr>\<rparr>"
      show ?thesis
      proof (cases "now - hd (sw ?rc) < T")
        case sleeps: True
        with st Enter f' free now t True per
        have s': "s' = s\<lparr>controller := set_lock f (Some (now + (T - (now - hd (sw ?rc)))))
                                      (?rc\<lparr>sw := tl (sw ?rc)\<rparr>),
                         clock := now\<rparr>"
          by (auto simp: Let_def)
        from past now have "\<forall>x \<in> set ?adm. x \<le> now"
          by force
        with lim per pos srt sp others long rest last show ?thesis
          unfolding s' by (simp add: gate_inv_def)
      next
        case passes: False
        with last t have gap: "N \<le> length ?adm \<longrightarrow> ?adm ! (N - 1) + T \<le> t"
          by simp
        have "\<exists>s''. put t ?s1 = Some s'' \<and> gate_inv f N T s''"
          by (rule put_keeps_inv) (use lim per pos srt before sp gap rest all_free in simp_all)
        with st Enter f' free now t True passes per show ?thesis
          by (auto simp: Let_def)
      qed
    qed
  next
    case (Wake f' t)
    with form have f': "f' = f" by simp
    from st Wake f' obtain wake where held: "lock_of f ?rc = Some wake"
      and now: "clock s \<le> t" and late: "wake \<le> t"
      by (auto simp: Let_def split: option.splits if_splits)
    from inv held have long: "N \<le> length ?adm" and q: "sw ?rc = rev (take (N - 1) ?adm)"
      and w: "?adm ! (N - 1) + T \<le> wake"
      by (simp_all add: gate_inv_def)
    from past now have before: "\<forall>x \<in> set ?adm. x \<le> t"
      by force
    from w late have gap: "N \<le> length ?adm \<longrightarrow> ?adm ! (N - 1) + T \<le> t"
      by simp
    let ?s1 = "s\<lparr>controller := set_lock f None ?rc\<rparr>"
    have "\<exists>s''. put t ?s1 = Some s'' \<and> gate_inv f N T s''"
      by (rule put_keeps_inv) (use lim per pos srt before sp gap q others in auto)
    with st Wake f' held now late show ?thesis
      by (auto simp: Let_def)
  qed
qed

lemma run_events_keeps_inv:
  "gate_inv f N T s \<Longrightarrow> run_events s evs = Some s' \<Longrightarrow> \<forall>e \<in> set evs. event_form e = f \<Longrightarrow>
     gate_inv f N T s'"
proof (induction evs arbitrary: s)
  case Nil
  then show ?case by simp
next
  case (Cons e evs)
  from Cons.prems(2) obtain s1 where st: "step s e = Some s1"
    and rest: "run_events s1 evs = Some s'"
    by (auto split: option.splits)
  from Cons.prems(3) have "event_form e = f" by simp
  from step_keeps_inv [OF Cons.prems(1) st this] have "gate_inv f N T s1" .
  from Cons.IH [OF this rest] Cons.prems(3) show ?case by simp
qed

text \<open>
  With callers of one form only, and a limit of at least one, the admissions of a
  controller stay within the rate: whatever the callers do and whenever, no window
  \<open>(t - T, t]\<close> holds more than \<open>limit\<close> admissions.
\<close>

lemma one_form_within_rate:
  assumes "0 < n_limit" and "\<forall>e \<in> set evs. event_form e = f"
    and "run_events (gate_start (RateController n_limit T retries init_delay exp_base on_errors)) evs
           = Some s"
  shows "within_rate (nat n_limit) T (admissions s)"
proof -
  have "gate_inv f (nat n_limit) T
          (gate_start (RateController n_limit T retries init_delay exp_base on_errors))"
    using assms(1)
    by (cases f)
       (simp_all add: gate_inv_def gate_start_def RateController_def lock_of_def
          split: form.splits)
  from run_events_keeps_inv [OF this assms(3,2)]
  have "gate_inv f (nat n_limit) T s" .
  then have "0 < nat n_limit" and "sorted_wrt (\<ge>) (admissions s)"
    and "spaced (nat n_limit) T (admissions s)"
    by (simp_all add: gate_inv_def)
  from spaced_within_rate [OF this] show ?thesis
    by (simp add: within_rate_def)
qed

section \<open>translate.py: the inline grouping extractor\<close>

text \<open>
  The markup tree of BeautifulSoup. A \<open>Tag\<close> has a name and its \<open>contents\<close>; a text
  leaf is a \<open>NavigableString\<close>, of which \<open>Comment\<close> and \<open>Doctype\<close> are subclasses. An
  element of the tree is identified by its path from the root (the child indices on the
  way down): \<open>ele\<close> in the source is an object reference, here the path of that object.
\<close>

datatype str_kind = Plain | Comment | Doctype

datatype node = Tag pystr "node list" | NavigableString str_kind pystr

type_synonym path = "nat list"

text \<open>
  \<open>InlineGroup\<close>: three parallel lists. The extractor builds them from one list of items,
  so the assertion of \<open>__post_init__\<close> (equal lengths) holds of every group it makes.
\<close>

record InlineGroup =
  text_shreds :: "pystr list"
  cids :: "nat list"
  elements :: "path list"

text \<open>\<open>is_inline_ele\<close>: membership of the tag name in the fixed set of inline tags.\<close>

definition inline_names :: "pystr list" where
  "inline_names = map py
     [''a'', ''abbr'', ''acronym'', ''b'',
      ''bdo'', ''big'', ''br'', ''button'',
      ''cite'', ''code'', ''dfn'', ''em'', ''i'',
      ''img'', ''input'', ''kbd'', ''label'',
      ''map'', ''object'', ''output'', ''q'',
      ''samp'', ''script'', ''select'', ''small'',
      ''span'', ''strong'', ''sub'', ''sup'',
      ''textarea'', ''time'', ''tt'', ''var'']"

definition is_inline_ele :: "pystr \<Rightarrow> bool" where
  "is_inline_ele name = (name \<in> set inline_names)"

text \<open>\<open>ignore_char_set = {'\n', '\xa0'}\<close>.\<close>

definition ignore_char_set :: "nat set" where
  "ignore_char_set = {10, 160}"

text \<open>
  An item \<open>[c.replace('\n', ''), cid, ele, cnt]\<close> of a running group, and the state of
  the walk: the counter \<open>cnt\<close> and the list \<open>all_groups\<close>.
\<close>

type_synonym item = "pystr \<times> nat \<times> path \<times> nat"

type_synonym walk = "nat \<times> item list list"

text \<open>
  \<open>traversal(ele)\<close> for the tag at path \<open>ele\<close> with the given name and contents, and
  its loop \<open>for cid, c in enumerate(ele.contents)\<close>, from child \<open>cid\<close> on with the running
  \<open>group\<close>. A string has the name \<open>None\<close>, so \<open>c.name == 'script'\<close> holds of tags only.
  The result \<open>None\<close> is the source's \<open>return None\<close> of a block element.
\<close>

fun traversal :: "path \<Rightarrow> pystr \<Rightarrow> node list \<Rightarrow> walk \<Rightarrow> item list option \<times> walk"
  and for_contents ::
    "path \<Rightarrow> bool \<Rightarrow> nat \<Rightarrow> node list \<Rightarrow> item list \<Rightarrow> walk \<Rightarrow> item list \<times> walk" where
  "traversal ele name contents w =
     (let inline = is_inline_ele name;
          (grp, cnt, all_groups) = for_contents ele inline 0 contents [] w
      in if \<not> inline
         then (None, cnt, if grp \<noteq> [] then all_groups @ [grp] else all_groups)
         else (Some grp, cnt, all_groups))"
| "for_contents ele inline cid [] grp w = (grp, w)"
| "for_contents ele inline cid (NavigableString k s # cs) grp (cnt, all_groups) =
     (if k = Doctype \<or> k = Comment
      then for_contents ele inline (cid + 1) cs grp (cnt, all_groups)
      else if \<not> set s \<subseteq> ignore_char_set
      then for_contents ele inline (cid + 1) cs
             (grp @ [(filter (\<lambda>c. c \<noteq> 10) s, cid, ele, cnt)]) (cnt + 1, all_groups)
      else for_contents ele inline (cid + 1) cs grp (cnt, all_groups))"
| "for_contents ele inline cid (Tag name contents # cs) grp w =
     (if name = py ''script''
      then for_contents ele inline (cid + 1) cs grp w
      else (case traversal (ele @ [cid]) name contents w of
              (Some sub_shreds, w') \<Rightarrow>
                for_contents ele inline (cid + 1) cs (grp @ sub_shreds) w'
            | (None, cnt', all_groups') \<Rightarrow>
                if \<not> inline \<and> grp \<noteq> []
                then for_contents ele inline (cid + 1) cs [] (cnt', all_groups' @ [grp])
                else for_contents ele inline (cid + 1) cs grp (cnt', all_groups')))"

text \<open>\<open>str(i)\<close> for a natural number: its decimal digits.\<close>

fun str_nat :: "nat \<Rightarrow> pystr" where
  "str_nat n = (if n < 10 then [48 + n] else str_nat (n div 10) @ [48 + n mod 10])"

declare str_nat.simps [simp del]

text \<open>\<open>InlineGroup([item[0] ...], [item[1] ...], [item[2] ...])\<close>.\<close>

definition mk_group :: "item list \<Rightarrow> InlineGroup" where
  "mk_group g = \<lparr>text_shreds = map fst g, cids = map (\<lambda>item. fst (snd item)) g,
                 elements = map (\<lambda>item. fst (snd (snd item))) g\<rparr>"

text \<open>
  \<open>get_text_group_inline(element)\<close>, for an element that is a \<open>Tag\<close> as its signature
  says: the walk, the stable sort of the groups by the counter of their first item, and
  the ordered map from \<open>str(i)\<close> to the i-th group.
\<close>

fun get_text_group_inline :: "node \<Rightarrow> (pystr \<times> InlineGroup) list" where
  "get_text_group_inline (Tag name contents) =
     (let (r, cnt, all_groups) = traversal [] name contents (0, []);
          sorted_groups = sort_key (\<lambda>x. snd (snd (snd (hd x)))) all_groups
      in map (\<lambda>(i, g). (str_nat i, mk_group g)) (enumerate 0 sorted_groups))"


text \<open>
  The specification side of the extractor, written from the words of the spec and not from
  \<open>traversal\<close>: the positions, in document order, of the text leaves below a list of
  children that are not filtered, where a leaf is filtered when it is a comment or a
  doctype, lies inside a \<open>script\<close> element, or consists of characters of
  \<open>ignore_char_set\<close> only.
\<close>

fun translatable_leaves :: "path \<Rightarrow> nat \<Rightarrow> node list \<Rightarrow> path list" where
  "translatable_leaves ele cid [] = []"
| "translatable_leaves ele cid (NavigableString k s # cs) =
     (if k \<noteq> Doctype \<and> k \<noteq> Comment \<and> \<not> set s \<subseteq> ignore_char_set then [ele @ [cid]] else [])
     @ translatable_leaves ele (cid + 1) cs"
| "translatable_leaves ele cid (Tag name contents # cs) =
     (if name = py ''script'' then [] else translatable_leaves (ele @ [cid]) 0 contents)
     @ translatable_leaves ele (cid + 1) cs"

text \<open>The position of a leaf: the path of its owner followed by its child index.\<close>

definition item_pos :: "item \<Rightarrow> path" where
  "item_pos it = fst (snd (snd it)) @ [fst (snd it)]"

definition group_positions :: "InlineGroup \<Rightarrow> path list" where
  "group_positions g = map (\<lambda>(ele, cid). ele @ [cid]) (zip (elements g) (cids g))"

lemma group_positions_mk_group: "group_positions (mk_group g) = map item_pos g"
  by (induction g) (auto simp: group_positions_def mk_group_def item_pos_def)

lemma traversal_collects:
  "traversal ele name contents w = (r, w') \<Longrightarrow>
     mset (map item_pos (concat (snd w') @ (case r of Some g \<Rightarrow> g | None \<Rightarrow> [])))
       = mset (map item_pos (concat (snd w))) + mset (translatable_leaves ele 0 contents)
     \<and> (r = None \<longleftrightarrow> \<not> is_inline_ele name)"
  "for_contents ele inline cid cs grp w = (grp', w') \<Longrightarrow>
     mset (map item_pos (concat (snd w') @ grp'))
       = mset (map item_pos (concat (snd w) @ grp)) + mset (translatable_leaves ele cid cs)"
proof (induction ele name contents w and ele inline cid cs grp w
       arbitrary: r w' and grp' w' rule: traversal_for_contents.induct)
  case (1 ele name contents w)
  obtain grp cnt ag where fc: "for_contents ele (is_inline_ele name) 0 contents [] w = (grp, cnt, ag)"
    by (metis prod_cases3)
  from "1.IH" [OF refl fc]
  have "mset (map item_pos (concat ag @ grp))
       = mset (map item_pos (concat (snd w) @ [])) + mset (translatable_leaves ele 0 contents)"
    by simp
  with "1.prems" fc show ?case
    by (auto simp: Let_def split: if_splits)
next
  case (2 ele inline cid grp w)
  then show ?case by simp
next
  case (3 ele inline cid k s cs grp cnt all_groups)
  then show ?case
    by (auto simp: item_pos_def split: if_splits)
next
  case (4 ele inline cid name contents cs grp w)
  show ?case
  proof (cases "name = py ''script''")
    case True
    with "4.prems" "4.IH"(1) show ?thesis by simp
  next
    case False
    obtain r1 cnt1 ag1 where tr: "traversal (ele @ [cid]) name contents w = (r1, cnt1, ag1)"
      by (metis prod_cases3)
    from "4.IH"(2) [OF False tr]
    have m1: "mset (map item_pos (concat ag1 @ (case r1 of Some g \<Rightarrow> g | None \<Rightarrow> [])))
       = mset (map item_pos (concat (snd w))) + mset (translatable_leaves (ele @ [cid]) 0 contents)"
      by simp
    show ?thesis
    proof (cases r1)
      case (Some sub)
      with "4.prems" False tr
      have fc: "for_contents ele inline (cid + 1) cs (grp @ sub) (cnt1, ag1) = (grp', w')"
        by simp
      from "4.IH"(5) [OF False tr [symmetric] Some fc] Some
      have "mset (map item_pos (concat (snd w') @ grp'))
         = mset (map item_pos (concat ag1 @ (grp @ sub))) + mset (translatable_leaves ele (cid + 1) cs)"
        by simp
      with m1 Some False show ?thesis by simp
    next
      case None
      show ?thesis
      proof (cases "\<not> inline \<and> grp \<noteq> []")
        case True
        with "4.prems" False tr None
        have fc: "for_contents ele inline (cid + 1) cs [] (cnt1, ag1 @ [grp]) = (grp', w')"
          by simp
        from "4.IH"(3) [OF False tr [symmetric] None refl True fc] None
        have "mset (map item_pos (concat (snd w') @ grp'))
           = mset (map item_pos (concat (ag1 @ [grp]) @ [])) + mset (translatable_leaves ele (cid + 1) cs)"
          by simp
        with m1 None False show ?thesis by simp
      next
        case F2: False
        with "4.prems" False tr None
        have fc: "for_contents ele inline (cid + 1) cs grp (cnt1, ag1) = (grp', w')"
          by auto
        from "4.IH"(4) [OF False tr [symmetric] None refl F2 fc] None
        have "mset (map item_pos (concat (snd w') @ grp'))
           = mset (map item_pos (concat ag1 @ grp)) + mset (translatable_leaves ele (cid + 1) cs)"
          by simp
        with m1 None False show ?thesis by simp
      qed
    qed
  qed
qed

text \<open>The node at a path below a node, if there is one.\<close>

fun node_at :: "path \<Rightarrow> node \<Rightarrow> node option" where
  "node_at [] t = Some t"
| "node_at (i # p) (Tag name contents) =
     (if i < length contents then node_at p (contents ! i) else None)"
| "node_at (i # p) (NavigableString k s) = None"

lemma translatable_leaves_shape:
  "p \<in> set (translatable_leaves ele cid cs) \<Longrightarrow>
     \<exists>i q s. p = ele @ (cid + i) # q \<and> i < length cs
        \<and> node_at q (cs ! i) = Some (NavigableString Plain s) \<and> \<not> set s \<subseteq> ignore_char_set"
proof (induction ele cid cs rule: translatable_leaves.induct)
  case (1 ele cid)
  then show ?case by simp
next
  case (2 ele cid k s cs)
  show ?case
  proof (cases "p \<in> set (translatable_leaves ele (cid + 1) cs)")
    case True
    from "2.IH" [OF True] obtain i q s' where
      "p = ele @ (cid + 1 + i) # q" "i < length cs"
      "node_at q (cs ! i) = Some (NavigableString Plain s')" "\<not> set s' \<subseteq> ignore_char_set"
      by blast
    then have "p = ele @ (cid + Suc i) # q \<and> Suc i < length (NavigableString k s # cs)
        \<and> node_at q ((NavigableString k s # cs) ! Suc i) = Some (NavigableString Plain s')
        \<and> \<not> set s' \<subseteq> ignore_char_set"
      by simp
    then show ?thesis by blast
  next
    case False
    with "2.prems" have p: "p = ele @ [cid]" and k: "k \<noteq> Doctype" "k \<noteq> Comment"
      and s: "\<not> set s \<subseteq> ignore_char_set"
      by (auto split: if_splits)
    from k have "k = Plain" by (cases k) auto
    with p s have "p = ele @ (cid + 0) # [] \<and> 0 < length (NavigableString k s # cs)
        \<and> node_at [] ((NavigableString k s # cs) ! 0) = Some (NavigableString Plain s)
        \<and> \<not> set s \<subseteq> ignore_char_set"
      by simp
    then show ?thesis by blast
  qed
next
  case (3 ele cid name contents cs)
  show ?case
  proof (cases "p \<in> set (translatable_leaves ele (cid + 1) cs)")
    case True
    from "3.IH"(2) [OF True] obtain i q s' where
      "p = ele @ (cid + 1 + i) # q" "i < length cs"
      "node_at q (cs ! i) = Some (NavigableString Plain s')" "\<not> set s' \<subseteq> ignore_char_set"
      by blast
    then have "p = ele @ (cid + Suc i) # q \<and> Suc i < length (Tag name contents # cs)
        \<and> node_at q ((Tag name contents # cs) ! Suc i) = Some (NavigableString Plain s')
        \<and> \<not> set s' \<subseteq> ignore_char_set"
      by simp
    then show ?thesis by blast
  next
    case False
    with "3.prems" have ns: "name \<noteq> py ''script''"
      and mem: "p \<in> set (translatable_leaves (ele @ [cid]) 0 contents)"
      by (auto split: if_splits)
    from "3.IH"(1) [OF ns mem] obtain i q s' where
      "p = (ele @ [cid]) @ (0 + i) # q" "i < length contents"
      "node_at q (contents ! i) = Some (NavigableString Plain s')" "\<not> set s' \<subseteq> ignore_char_set"
      by blast
    then have "p = ele @ (cid + 0) # (i # q) \<and> 0 < length (Tag name contents # cs)
        \<and> node_at (i # q) ((Tag name contents # cs) ! 0) = Some (NavigableString Plain s')
        \<and> \<not> set s' \<subseteq> ignore_char_set"
      by simp
    then show ?thesis by blast
  qed
qed

lemma translatable_leaves_later:
  "p \<in> set (translatable_leaves ele cid cs) \<Longrightarrow> \<exists>j q. p = ele @ j # q \<and> cid \<le> j"
  using translatable_leaves_shape [of p ele cid cs] by force

lemma distinct_translatable_leaves: "distinct (translatable_leaves ele cid cs)"
proof (induction ele cid cs rule: translatable_leaves.induct)
  case (1 ele cid)
  show ?case by simp
next
  case (2 ele cid k s cs)
  have "ele @ [cid] \<notin> set (translatable_leaves ele (cid + 1) cs)"
    using translatable_leaves_later [of "ele @ [cid]" ele "cid + 1" cs] by auto
  with "2.IH" show ?case by simp
next
  case (3 ele cid name contents cs)
  have "set (translatable_leaves (ele @ [cid]) 0 contents)
          \<inter> set (translatable_leaves ele (cid + 1) cs) = {}"
  proof (rule ccontr)
    assume "\<not> ?thesis"
    then obtain p where a: "p \<in> set (translatable_leaves (ele @ [cid]) 0 contents)"
      and b: "p \<in> set (translatable_leaves ele (cid + 1) cs)"
      by blast
    from translatable_leaves_later [OF a] obtain j q where "p = (ele @ [cid]) @ j # q"
      by blast
    moreover from translatable_leaves_later [OF b] obtain j' q' where
      "p = ele @ j' # q'" "cid + 1 \<le> j'"
      by blast
    ultimately show False by simp
  qed
  with "3.IH" show ?case by simp
qed

lemma mset_concat_sort_key: "mset (concat (sort_key f xss)) = mset (concat xss)"
proof -
  have "mset (concat (sort_key f xss)) = sum_mset (image_mset mset (mset (sort_key f xss)))"
    by (simp add: mset_concat flip: sum_mset_sum_list)
  also have "\<dots> = sum_mset (image_mset mset (mset xss))"
    by simp
  also have "\<dots> = mset (concat xss)"
    by (simp add: mset_concat flip: sum_mset_sum_list)
  finally show ?thesis .
qed

text \<open>All leaf positions of all groups of a map, with repetitions.\<close>

definition grouped_positions :: "(pystr \<times> InlineGroup) list \<Rightarrow> path list" where
  "grouped_positions groups_map = concat (map (\<lambda>(k, g). group_positions g) groups_map)"

lemma grouped_positions_extract:
  "traversal [] name contents (0, []) = (r, cnt, ag) \<Longrightarrow>
   mset (grouped_positions (get_text_group_inline (Tag name contents)))
     = mset (map item_pos (concat ag))"
proof -
  assume tr: "traversal [] name contents (0, []) = (r, cnt, ag)"
  let ?sorted = "sort_key (\<lambda>x. snd (snd (snd (hd x)))) ag"
  have "grouped_positions (get_text_group_inline (Tag name contents))
      = concat (map (\<lambda>(i, g). map item_pos g) (enumerate 0 ?sorted))"
    using tr by (simp add: grouped_positions_def group_positions_mk_group comp_def
        case_prod_unfold)
  also have "\<dots> = concat (map (map item_pos \<circ> snd) (enumerate 0 ?sorted))"
    by (simp add: comp_def case_prod_unfold)
  also have "\<dots> = concat (map (map item_pos) (map snd (enumerate 0 ?sorted)))"
    by (simp only: map_map)
  also have "\<dots> = concat (map (map item_pos) ?sorted)"
    by (simp only: map_snd_enumerate)
  also have "\<dots> = map item_pos (concat ?sorted)"
    by (simp add: map_concat)
  finally show ?thesis
    by (simp only: mset_map mset_concat_sort_key)
qed

text \<open>
  Claim C7, as amended. For a block-level root element, every text leaf that is not
  filtered (not a comment or doctype, not inside a \<open>script\<close> element, and not made of
  newline and no-break-space characters only) belongs to exactly one group of the
  extractor's output, once; the groups hold nothing else, and every grouped position is a
  plain text leaf of the tree with a character outside \<open>ignore_char_set\<close>. The extractor
  returns the groups only: the tree is its argument and is not changed.
\<close>

theorem extractor_groups_each_leaf_once:
  assumes "\<not> is_inline_ele name"
  shows "distinct (grouped_positions (get_text_group_inline (Tag name contents)))
     \<and> set (grouped_positions (get_text_group_inline (Tag name contents)))
         = set (translatable_leaves [] 0 contents)
     \<and> (\<forall>p \<in> set (grouped_positions (get_text_group_inline (Tag name contents))).
           \<exists>s. node_at p (Tag name contents) = Some (NavigableString Plain s)
              \<and> \<not> set s \<subseteq> ignore_char_set)"
proof -
  obtain r cnt ag where tr: "traversal [] name contents (0, []) = (r, cnt, ag)"
    by (metis prod_cases3)
  from traversal_collects(1) [OF tr] assms
  have "r = None" and "mset (map item_pos (concat ag)) = mset (translatable_leaves [] 0 contents)"
    by auto
  with grouped_positions_extract [OF tr]
  have m: "mset (grouped_positions (get_text_group_inline (Tag name contents)))
      = mset (translatable_leaves [] 0 contents)"
    by simp
  have d: "distinct (grouped_positions (get_text_group_inline (Tag name contents)))"
    using mset_eq_imp_distinct_iff [OF m] distinct_translatable_leaves by blast
  have s: "set (grouped_positions (get_text_group_inline (Tag name contents)))
         = set (translatable_leaves [] 0 contents)"
    using mset_eq_setD [OF m] .
  have "\<exists>s. node_at p (Tag name contents) = Some (NavigableString Plain s)
              \<and> \<not> set s \<subseteq> ignore_char_set"
    if "p \<in> set (translatable_leaves [] 0 contents)" for p
    using translatable_leaves_shape [OF that] by auto
  with d s show ?thesis by blast
qed

text \<open>
  The theorem on a small document: a \<open>div\<close> holding an indentation string, a \<open>span\<close>
  with a nested paragraph, a script, a comment and a string of newline and no-break space.
\<close>

theorem extractor_groups_each_leaf_once_witness:
  "\<not> is_inline_ele (py ''div'')
   \<and> distinct (grouped_positions (get_text_group_inline (Tag (py ''div'')
        [NavigableString Plain [10, 32, 32],
         Tag (py ''span'') [NavigableString Plain (py ''b''),
                           Tag (py ''p'') [NavigableString Plain (py ''c'')],
                           NavigableString Plain (py ''d'')],
         NavigableString Plain (py ''e''),
         Tag (py ''script'') [NavigableString Plain (py ''x'')],
         NavigableString Comment (py ''zz''),
         NavigableString Plain [10, 160]])))
   \<and> set (grouped_positions (get_text_group_inline (Tag (py ''div'')
        [NavigableString Plain [10, 32, 32],
         Tag (py ''span'') [NavigableString Plain (py ''b''),
                           Tag (py ''p'') [NavigableString Plain (py ''c'')],
                           NavigableString Plain (py ''d'')],
         NavigableString Plain (py ''e''),
         Tag (py ''script'') [NavigableString Plain (py ''x'')],
         NavigableString Comment (py ''zz''),
         NavigableString Plain [10, 160]])))
       = {[0], [1, 0], [1, 1, 0], [1, 2], [2]}"
proof -
  let ?contents = "[NavigableString Plain [10, 32, 32],
         Tag (py ''span'') [NavigableString Plain (py ''b''),
                           Tag (py ''p'') [NavigableString Plain (py ''c'')],
                           NavigableString Plain (py ''d'')],
         NavigableString Plain (py ''e''),
         Tag (py ''script'') [NavigableString Plain (py ''x'')],
         NavigableString Comment (py ''zz''),
         NavigableString Plain [10, 160]]"
  have block: "\<not> is_inline_ele (py ''div'')"
    by code_simp
  have leaves: "translatable_leaves [] 0 ?contents = [[0], [1, 0], [1, 1, 0], [1, 2], [2]]"
    by code_simp
  show ?thesis
    using block extractor_groups_each_leaf_once [OF block, of ?contents]
    unfolding leaves by auto
qed

text \<open>
  Claim C7 as stated fails: a text node of a newline and two spaces, the indentation
  between two tags, is whitespace only and is grouped, as a shred of two spaces.
\<close>

theorem extractor_groups_indentation:
  "get_text_group_inline (Tag (py ''div'') [NavigableString Plain [10, 32, 32]])
     = [(py ''0'', \<lparr>text_shreds = [[32, 32]], cids = [0], elements = [[]]\<rparr>)]"
  by code_simp

section \<open>translate.py: the segmenter\<close>

text \<open>\<open>str(group)\<close> joins the shreds; \<open>len(group)\<close> counts them.\<close>

definition group_str :: "InlineGroup \<Rightarrow> pystr" where
  "group_str g = concat (text_shreds g)"

definition group_len :: "InlineGroup \<Rightarrow> nat" where
  "group_len g = length (text_shreds g)"

text \<open>
  An ordered dictionary is the list of its items in insertion order. \<open>d[k] = v\<close> replaces
  the value of a key that is present and appends a new key at the end.
\<close>

type_synonym groups_map = "(pystr \<times> InlineGroup) list"

fun dict_set :: "('k \<times> 'v) list \<Rightarrow> 'k \<Rightarrow> 'v \<Rightarrow> ('k \<times> 'v) list" where
  "dict_set [] k v = [(k, v)]"
| "dict_set ((k', v') # d) k v = (if k' = k then (k, v) # d else (k', v') # dict_set d k v)"

text \<open>
  The loop of \<open>segment_groups_map\<close> over the items that remain, with the variables
  \<open>ret\<close>, \<open>token_cnt\<close>, \<open>cnt\<close> and \<open>seg\<close>; after the loop, \<open>ret.append(seg)\<close>.
  A token count is the length of a token list, a natural number.
\<close>

fun seg_loop ::
  "int \<Rightarrow> int \<Rightarrow> (pystr \<Rightarrow> nat) \<Rightarrow> groups_map \<Rightarrow>
   groups_map list \<Rightarrow> nat \<Rightarrow> nat \<Rightarrow> groups_map \<Rightarrow> groups_map list" where
  "seg_loop max_token len_seg token_counter [] ret token_cnt cnt seg = ret @ [seg]"
| "seg_loop max_token len_seg token_counter ((k, grp) # rest) ret token_cnt cnt seg =
     (let n = token_counter (group_str grp) in
      if int n > max_token
      then seg_loop max_token len_seg token_counter rest ret token_cnt cnt seg
      else if int token_cnt > len_seg \<and> seg \<noteq> []
      then seg_loop max_token len_seg token_counter rest
             (ret @ [seg]) (0 + n) (0 + 1) (dict_set [] (str_nat 0) grp)
      else seg_loop max_token len_seg token_counter rest
             ret (token_cnt + n) (cnt + 1) (dict_set seg (str_nat cnt) grp))"

text \<open>
  \<open>segment_groups_map\<close>. The two divisions are Python's true division followed by
  \<open>math.ceil\<close>; a zero divisor raises \<open>ZeroDivisionError\<close>.
\<close>

definition token_sum :: "(pystr \<Rightarrow> nat) \<Rightarrow> groups_map \<Rightarrow> nat" where
  "token_sum token_counter groups_map =
     sum_list (map (\<lambda>(k, g). token_counter (group_str g)) groups_map)"

definition segment_groups_map ::
  "groups_map \<Rightarrow> int \<Rightarrow> (pystr \<Rightarrow> nat) \<Rightarrow> exc_class + groups_map list" where
  "segment_groups_map groups_map max_token token_counter =
     (let token_all = token_sum token_counter groups_map in
      if token_all = 0 then Inr []
      else if max_token = 0 then Inl ZeroDivisionError
      else let n_seg = \<lceil>real token_all / real_of_int max_token\<rceil> in
           if n_seg = 0 then Inl ZeroDivisionError
           else let len_seg = \<lceil>real token_all / real_of_int n_seg\<rceil> in
                Inr (seg_loop max_token len_seg token_counter groups_map [] 0 0 []))"

subsection \<open>Keys of a segment are distinct\<close>

lemma foldl_digits_str_nat: "foldl (\<lambda>a d. 10 * a + (d - 48)) 0 (str_nat n) = n"
proof (induction n rule: str_nat.induct)
  case (1 n)
  show ?case
  proof (cases "n < 10")
    case True
    then show ?thesis by (simp add: str_nat.simps [of n])
  next
    case False
    with "1.IH" show ?thesis by (simp add: str_nat.simps [of n])
  qed
qed

lemma str_nat_inject: "str_nat m = str_nat n \<Longrightarrow> m = n"
  by (metis foldl_digits_str_nat)

lemma dict_set_fresh: "k \<notin> fst ` set d \<Longrightarrow> dict_set d k v = d @ [(k, v)]"
  by (induction d) auto

lemma dict_set_next:
  assumes "map fst seg = map str_nat [0..<cnt]"
  shows "dict_set seg (str_nat cnt) v = seg @ [(str_nat cnt, v)]"
proof -
  have "str_nat cnt \<notin> set (map fst seg)"
    using assms by (auto dest!: str_nat_inject)
  then show ?thesis by (simp add: dict_set_fresh)
qed

lemma seg_loop_values:
  "map fst seg = map str_nat [0..<cnt] \<Longrightarrow>
   concat (map (map snd) (seg_loop max_token len_seg token_counter groups_map ret token_cnt cnt seg))
     = concat (map (map snd) ret) @ map snd seg
       @ filter (\<lambda>g. int (token_counter (group_str g)) \<le> max_token) (map snd groups_map)"
proof (induction max_token len_seg token_counter groups_map ret token_cnt cnt seg
       rule: seg_loop.induct)
  case (1 max_token len_seg token_counter ret token_cnt cnt seg)
  show ?case by simp
next
  case (2 max_token len_seg token_counter k grp rest ret token_cnt cnt seg)
  let ?n = "token_counter (group_str grp)"
  show ?case
  proof (cases "int ?n > max_token")
    case True
    with "2.IH"(1) [OF refl True "2.prems"] show ?thesis by simp
  next
    case False
    show ?thesis
    proof (cases "int token_cnt > len_seg \<and> seg \<noteq> []")
      case True
      have keys: "map fst (dict_set [] (str_nat 0) grp) = map str_nat [0..<0 + 1]"
        by simp
      from "2.IH"(2) [OF refl False True keys] False True show ?thesis
        by simp
    next
      case F2: False
      have keys: "map fst (dict_set seg (str_nat cnt) grp) = map str_nat [0..<cnt + 1]"
        using "2.prems" by (simp add: dict_set_next)
      from "2.IH"(3) [OF refl False F2 keys] False F2 "2.prems" show ?thesis
        by (auto simp: dict_set_next)
    qed
  qed
qed

text \<open>
  Claim C6. \<open>segment_groups_map\<close> returns the empty list when the token counts sum to
  zero. Otherwise, whenever it returns, the groups of its segments read in order are
  exactly the groups of the input whose own token count does not exceed \<open>max_token\<close>,
  in their original order: each of them is in one segment, once, and a group over
  \<open>max_token\<close> is in none. With a positive \<open>max_token\<close> it always returns.
\<close>

theorem segment_groups_map_partition:
  "(token_sum token_counter groups_map = 0 \<longrightarrow>
      segment_groups_map groups_map max_token token_counter = Inr [])
   \<and> (token_sum token_counter groups_map \<noteq> 0
        \<and> segment_groups_map groups_map max_token token_counter = Inr segs \<longrightarrow>
      concat (map (map snd) segs)
        = filter (\<lambda>g. int (token_counter (group_str g)) \<le> max_token) (map snd groups_map))
   \<and> (0 < max_token \<longrightarrow>
      (\<exists>segs. segment_groups_map groups_map max_token token_counter = Inr segs))"
proof -
  have returns: "\<exists>segs. segment_groups_map groups_map max_token token_counter = Inr segs"
    if pos: "0 < max_token"
  proof (cases "token_sum token_counter groups_map = 0")
    case True
    then show ?thesis by (simp add: segment_groups_map_def)
  next
    case False
    then have "0 < real (token_sum token_counter groups_map) / real_of_int max_token"
      using pos by simp
    then have "0 < \<lceil>real (token_sum token_counter groups_map) / real_of_int max_token\<rceil>"
      by (simp only: zero_less_ceiling)
    then have "\<lceil>real (token_sum token_counter groups_map) / real_of_int max_token\<rceil> \<noteq> 0"
      by linarith
    with False pos show ?thesis
      by (simp add: segment_groups_map_def Let_def)
  qed
  have same_groups: "concat (map (map snd) segs)
        = filter (\<lambda>g. int (token_counter (group_str g)) \<le> max_token) (map snd groups_map)"
    if "token_sum token_counter groups_map \<noteq> 0"
      and "segment_groups_map groups_map max_token token_counter = Inr segs"
  proof -
    from that obtain len_seg where
      "segs = seg_loop max_token len_seg token_counter groups_map [] 0 0 []"
      by (auto simp: segment_groups_map_def Let_def split: if_splits)
    then show ?thesis
      using seg_loop_values [of "[]" 0 max_token len_seg token_counter groups_map "[]" 0]
      by simp
  qed
  have empty: "segment_groups_map groups_map max_token token_counter = Inr []"
    if "token_sum token_counter groups_map = 0"
    using that by (simp add: segment_groups_map_def)
  from empty returns same_groups show ?thesis
    by blast
qed


text \<open>
  Four groups of 2, 7, 3 and 3 tokens (a token per character) under \<open>max_token = 5\<close>:
  the group of 7 is dropped, the others fill two segments.
\<close>

theorem segment_groups_map_partition_witness:
  "segment_groups_map
     [(py ''0'', \<lparr>text_shreds = [py ''ab''], cids = [0], elements = [[]]\<rparr>),
      (py ''1'', \<lparr>text_shreds = [py ''cdefghi''], cids = [1], elements = [[]]\<rparr>),
      (py ''2'', \<lparr>text_shreds = [py ''jk'', py ''l''], cids = [2, 0], elements = [[], [3]]\<rparr>),
      (py ''3'', \<lparr>text_shreds = [py ''mno''], cids = [4], elements = [[]]\<rparr>)]
     3 length
   = Inr [[(py ''0'', \<lparr>text_shreds = [py ''ab''], cids = [0], elements = [[]]\<rparr>),
           (py ''1'', \<lparr>text_shreds = [py ''jk'', py ''l''], cids = [2, 0], elements = [[], [3]]\<rparr>)],
          [(py ''0'', \<lparr>text_shreds = [py ''mno''], cids = [4], elements = [[]]\<rparr>)]]
   \<and> concat (map (map snd) 
        [[(py ''0'', \<lparr>text_shreds = [py ''ab''], cids = [0], elements = [[]]\<rparr>),
           (py ''1'', \<lparr>text_shreds = [py ''jk'', py ''l''], cids = [2, 0], elements = [[], [3]]\<rparr>)],
          [(py ''0'', \<lparr>text_shreds = [py ''mno''], cids = [4], elements = [[]]\<rparr>)]])
      = [\<lparr>text_shreds = [py ''ab''], cids = [0], elements = [[]]\<rparr>,
         \<lparr>text_shreds = [py ''jk'', py ''l''], cids = [2, 0], elements = [[], [3]]\<rparr>,
         \<lparr>text_shreds = [py ''mno''], cids = [4], elements = [[]]\<rparr>]
   \<and> segment_groups_map [(py ''0'', \<lparr>text_shreds = [[]], cids = [0], elements = [[]]\<rparr>)] 5 length
       = Inr []"
proof -
  let ?gm = "[(py ''0'', \<lparr>text_shreds = [py ''ab''], cids = [0], elements = [[]]\<rparr>),
      (py ''1'', \<lparr>text_shreds = [py ''cdefghi''], cids = [1], elements = [[]]\<rparr>),
      (py ''2'', \<lparr>text_shreds = [py ''jk'', py ''l''], cids = [2, 0], elements = [[], [3]]\<rparr>),
      (py ''3'', \<lparr>text_shreds = [py ''mno''], cids = [4], elements = [[]]\<rparr>)]"
  let ?segs = "[[(py ''0'', \<lparr>text_shreds = [py ''ab''], cids = [0], elements = [[]]\<rparr>),
           (py ''1'', \<lparr>text_shreds = [py ''jk'', py ''l''], cids = [2, 0], elements = [[], [3]]\<rparr>)],
          [(py ''0'', \<lparr>text_shreds = [py ''mno''], cids = [4], elements = [[]]\<rparr>)]]"
  have ev: "segment_groups_map ?gm 3 length = Inr ?segs"
    by code_simp
  have tot: "token_sum length ?gm \<noteq> 0"
    by code_simp
  have zero: "token_sum length [(py ''0'', \<lparr>text_shreds = [[]], cids = [0], elements = [[]]\<rparr>)] = 0"
    by code_simp
  have flt: "filter (\<lambda>g. int (length (group_str g)) \<le> 3) (map snd ?gm)
      = [\<lparr>text_shreds = [py ''ab''], cids = [0], elements = [[]]\<rparr>,
         \<lparr>text_shreds = [py ''jk'', py ''l''], cids = [2, 0], elements = [[], [3]]\<rparr>,
         \<lparr>text_shreds = [py ''mno''], cids = [4], elements = [[]]\<rparr>]"
    by code_simp
  from segment_groups_map_partition [of length ?gm 3 ?segs] ev tot flt
  have "concat (map (map snd) ?segs)
      = [\<lparr>text_shreds = [py ''ab''], cids = [0], elements = [[]]\<rparr>,
         \<lparr>text_shreds = [py ''jk'', py ''l''], cids = [2, 0], elements = [[], [3]]\<rparr>,
         \<lparr>text_shreds = [py ''mno''], cids = [4], elements = [[]]\<rparr>]"
    by (simp only: simp_thms)
  moreover from segment_groups_map_partition
      [of length "[(py ''0'', \<lparr>text_shreds = [[]], cids = [0], elements = [[]]\<rparr>)]" 5] zero
  have "segment_groups_map [(py ''0'', \<lparr>text_shreds = [[]], cids = [0], elements = [[]]\<rparr>)] 5 length
       = Inr []"
    by (simp only: simp_thms)
  ultimately show ?thesis using ev by (simp only: simp_thms)
qed


section \<open>translate.py: fitting a translation back into its group\<close>

text \<open>
  The functions of the Python library that the module calls, as parameters of the model:
  \<open>difflib.SequenceMatcher(None, a, b).ratio()\<close>, \<open>str.lower\<close>, \<open>json.loads\<close> and \<open>int\<close>
  on a string. \<open>json_loads\<close> is \<open>None\<close> where \<open>json.loads\<close> raises and \<open>int_of_str\<close> is
  \<open>None\<close> where \<open>int\<close> raises \<open>ValueError\<close>.
\<close>

text \<open>
  What \<open>json.loads\<close> decodes: \<open>None\<close>, a truth value, a number, a string, a list or a
  dict. A decoded object is the ordered list of its items; its keys are strings and its
  values are whatever the reply holds. \<open>as_json_obj\<close> passes the text from the first
  opening brace on, so that what it decodes is an object.
\<close>

datatype jval =
  JNull | JBool bool | JInt int | JFloat real | JStr pystr
| JList "jval list" | JObject "(pystr \<times> jval) list"

type_synonym jobj = "(pystr \<times> jval) list"

text \<open>A dict of strings, as \<open>restruct\<close> builds for the shreds of the group.\<close>

type_synonym str_dict = "(pystr \<times> pystr) list"

record pylib =
  difflib_ratio :: "pystr \<Rightarrow> pystr \<Rightarrow> real"
  str_lower :: "pystr \<Rightarrow> pystr"
  json_loads :: "pystr \<Rightarrow> jobj option"
  int_of_str :: "pystr \<Rightarrow> int option"

text \<open>
  \<open>match_score\<close>. The table deletes the space, the newline, the tab, the comma, the
  full-width comma U+FF0C and the full stop. (The bytes of the fifth key in the source file
  are the UTF-8 encoding of U+FF0C read as Windows-1252 and encoded again; a key must be
  one character for \<open>str.maketrans\<close> to accept the table.)
\<close>

definition compact_tab :: "nat list" where
  "compact_tab = [32, 10, 9, 44, 65292, 46]"

definition match_score :: "pylib \<Rightarrow> pystr \<Rightarrow> pystr \<Rightarrow> real" where
  "match_score L s1 s2 =
     difflib_ratio L (str_lower L (filter (\<lambda>c. c \<notin> set compact_tab) s1))
                     (str_lower L (filter (\<lambda>c. c \<notin> set compact_tab) s2))"

text \<open>
  \<open>as_json_obj\<close>. \<open>re.findall(r'\{.*\}', raw, re.DOTALL)\<close>: the first match runs from the
  first opening brace to the last closing brace after it. \<open>re.sub(r',\s*}', '}', j_str)\<close>
  drops every comma that is followed by white space and a closing brace. \<open>json.loads\<close>
  raises on the empty text, the value of \<open>j_str\<close> when nothing matched.
\<close>

definition first_brace_match :: "pystr \<Rightarrow> pystr" where
  "first_brace_match raw =
     rev (dropWhile (\<lambda>c. c \<noteq> 125) (rev (dropWhile (\<lambda>c. c \<noteq> 123) raw)))"

definition is_space :: "nat \<Rightarrow> bool" where
  "is_space c \<longleftrightarrow>
     (9 \<le> c \<and> c \<le> 13) \<or> (28 \<le> c \<and> c \<le> 32) \<or> c = 133 \<or> c = 160 \<or> c = 5760
     \<or> (8192 \<le> c \<and> c \<le> 8202) \<or> c = 8232 \<or> c = 8233 \<or> c = 8239 \<or> c = 8287 \<or> c = 12288"

function strip_trailing_commas :: "pystr \<Rightarrow> pystr" where
  "strip_trailing_commas [] = []"
| "strip_trailing_commas (c # cs) =
     (if c = 44 \<and> dropWhile is_space cs \<noteq> [] \<and> hd (dropWhile is_space cs) = 125
      then 125 # strip_trailing_commas (tl (dropWhile is_space cs))
      else c # strip_trailing_commas cs)"
  by pat_completeness auto
termination
proof (relation "measure length")
  fix c :: nat and cs :: pystr
  assume "c = 44 \<and> dropWhile is_space cs \<noteq> [] \<and> hd (dropWhile is_space cs) = 125"
  then have "length (tl (dropWhile is_space cs)) < length (dropWhile is_space cs)"
    by simp
  also have "\<dots> \<le> length cs"
    by (rule length_dropWhile_le)
  finally show "(tl (dropWhile is_space cs), c # cs) \<in> measure length"
    by simp
qed auto

definition as_json_obj :: "pylib \<Rightarrow> pystr \<Rightarrow> jobj option" where
  "as_json_obj L raw =
     (let j_str = strip_trailing_commas (first_brace_match raw) in
      if j_str = [] then None else json_loads L j_str)"

text \<open>
  \<open>''.join(vs)\<close>: the texts joined, or \<open>None\<close> where \<open>join\<close> raises \<open>TypeError\<close> because an
  item is not a string.
\<close>

fun str_join :: "jval list \<Rightarrow> pystr option" where
  "str_join [] = Some []"
| "str_join (JStr s # vs) = (case str_join vs of None \<Rightarrow> None | Some r \<Rightarrow> Some (s @ r))"
| "str_join (v # vs) = None"

text \<open>
  \<open>validate_fit_in\<close>. The error message is kept as a value: only its emptiness is used.
  \<open>sorted(..., key=lambda x: int(x[0]))\<close> raises \<open>ValueError\<close> when a key is not the text
  of an integer, and is a stable sort otherwise.
\<close>

datatype fit_err = NoErr | LengthNotMatch nat nat | StringNotMatch pystr pystr

definition validate_fit_in ::
  "pylib \<Rightarrow> str_dict \<Rightarrow> pystr \<Rightarrow> jobj \<Rightarrow> exc_class + real \<times> fit_err" where
  "validate_fit_in L shreds_in trans_str shreds_out =
     (if length shreds_in \<noteq> length shreds_out
      then Inr (0, LengthNotMatch (length shreds_in) (length shreds_out))
      else if \<exists>kv \<in> set shreds_out. int_of_str L (fst kv) = None
      then Inl ValueError
      else let sorted_shreds_out = sort_key (\<lambda>kv. the (int_of_str L (fst kv))) shreds_out
           in case str_join (map snd sorted_shreds_out) of
                None \<Rightarrow> Inl TypeError
              | Some fit_str \<Rightarrow>
                  let score = match_score L trans_str fit_str
                  in if score \<noteq> 1 then Inr (score, StringNotMatch trans_str fit_str)
                     else Inr (1, NoErr))"

text \<open>
  One pass through the \<open>try\<close> block of \<open>restruct\<close>, given what the chat call of this
  attempt did: it returned the streamed text or raised. The result says whether the
  \<open>break\<close> was reached (otherwise an exception went to the handler) and gives the list
  \<open>fit_candidates\<close> afterwards.
\<close>

type_synonym candidates = "(real \<times> jobj) list"

definition restruct_try ::
  "pylib \<Rightarrow> (exc_class, pystr) outcome \<Rightarrow> str_dict \<Rightarrow> pystr \<Rightarrow> candidates \<Rightarrow>
   bool \<times> candidates" where
  "restruct_try L reply shreds_in transl fit_candidates =
     (case reply of
        Raise e \<Rightarrow> (False, fit_candidates)
      | Return response \<Rightarrow>
          (case as_json_obj L response of
             None \<Rightarrow> (False, fit_candidates)
           | Some shreds_out \<Rightarrow>
               if shreds_out = [] then (False, fit_candidates)
               else (case validate_fit_in L shreds_in transl shreds_out of
                       Inl e \<Rightarrow> (False, fit_candidates)
                     | Inr (score, err) \<Rightarrow>
                         (err = NoErr, fit_candidates @ [(score, shreds_out)]))))"

text \<open>
  The \<open>while True\<close> loop of \<open>restruct\<close>: \<open>chat retry\<close> is what the chat call does in the
  attempt made when the counter is \<open>retry\<close> (its temperature is \<open>0.01 * 1.6 ** retry\<close>).
  The result is \<open>fit_candidates\<close> and the number of chat calls made.
\<close>

definition max_retry :: nat where
  "max_retry = 10"

function restruct_loop ::
  "pylib \<Rightarrow> (nat \<Rightarrow> (exc_class, pystr) outcome) \<Rightarrow> str_dict \<Rightarrow> pystr \<Rightarrow> nat \<Rightarrow> candidates \<Rightarrow>
   candidates \<times> nat" where
  "restruct_loop L chat shreds_in transl retry fit_candidates =
     (case restruct_try L (chat retry) shreds_in transl fit_candidates of
        (True, cands) \<Rightarrow> (cands, retry + 1)
      | (False, cands) \<Rightarrow>
          if retry + 1 > max_retry then (cands, retry + 1)
          else restruct_loop L chat shreds_in transl (retry + 1) cands)"
  by pat_completeness auto
termination
  by (relation "measure (\<lambda>(L, chat, shreds_in, transl, retry, cands). max_retry + 1 - retry)")
     (auto simp: max_retry_def)

declare restruct_loop.simps [simp del]

text \<open>\<open>max(fit_candidates, key=lambda x: x[0])\<close>: the first item with the greatest key.\<close>

fun max_from :: "('a \<Rightarrow> real) \<Rightarrow> 'a \<Rightarrow> 'a list \<Rightarrow> 'a" where
  "max_from key best [] = best"
| "max_from key best (x # xs) = max_from key (if key x > key best then x else best) xs"

definition py_max :: "('a \<Rightarrow> real) \<Rightarrow> 'a list \<Rightarrow> 'a" where
  "py_max key xs = max_from key (hd xs) (tl xs)"

text \<open>\<open>xs[i]\<close> for a Python integer: a negative index counts from the end.\<close>

definition py_index :: "'a list \<Rightarrow> int \<Rightarrow> 'a option" where
  "py_index xs i =
     (if 0 \<le> i \<and> i < int (length xs) then Some (xs ! nat i)
      else if - int (length xs) \<le> i \<and> i < 0 then Some (xs ! nat (int (length xs) + i))
      else None)"

text \<open>
  \<open>ele.contents[cid].replace_with(v)\<close> on the tree: the child \<open>cid\<close> of the element at
  path \<open>ele\<close> becomes the string \<open>v\<close>. \<open>None\<close> when there is no such child.
\<close>

primrec replace_with :: "path \<Rightarrow> nat \<Rightarrow> pystr \<Rightarrow> node \<Rightarrow> node option" where
  "replace_with [] cid v t =
     (case t of
        Tag name contents \<Rightarrow>
          if cid < length contents then Some (Tag name (contents[cid := NavigableString Plain v]))
          else None
      | NavigableString k s \<Rightarrow> None)"
| "replace_with (i # ele) cid v t =
     (case t of
        Tag name contents \<Rightarrow>
          if i < length contents
          then (case replace_with ele cid v (contents ! i) of
                  None \<Rightarrow> None
                | Some c \<Rightarrow> Some (Tag name (contents[i := c])))
          else None
      | NavigableString k s \<Rightarrow> None)"

text \<open>
  \<open>ele.contents[cid].extract()\<close>: the child \<open>cid\<close> of the element at path \<open>ele\<close> is taken
  out of the tree. \<open>None\<close> when there is no such child.
\<close>

primrec extract_node :: "path \<Rightarrow> nat \<Rightarrow> node \<Rightarrow> node option" where
  "extract_node [] cid t =
     (case t of
        Tag name contents \<Rightarrow>
          if cid < length contents then Some (Tag name (take cid contents @ drop (Suc cid) contents))
          else None
      | NavigableString k s \<Rightarrow> None)"
| "extract_node (i # ele) cid t =
     (case t of
        Tag name contents \<Rightarrow>
          if i < length contents
          then (case extract_node ele cid (contents ! i) of
                  None \<Rightarrow> None
                | Some c \<Rightarrow> Some (Tag name (contents[i := c])))
          else None
      | NavigableString k s \<Rightarrow> None)"

text \<open>
  \<open>ele.contents[cid].replace_with(v)\<close> for a decoded value \<open>v\<close>, which \<open>restruct\<close> passes on
  as it is: \<open>ele.contents[cid]\<close> raises \<open>IndexError\<close> when there is no such child. The
  method of BeautifulSoup extracts the element and inserts \<open>v\<close> in its place; the
  insertion makes a text node of a string, raises \<open>ValueError\<close> for \<open>None\<close>, and for any
  other value raises \<open>AttributeError\<close> where it sets the parent of the new child. The
  result is the exception, if any, and the tree afterwards.
\<close>

definition replace_with_value :: "path \<Rightarrow> nat \<Rightarrow> jval \<Rightarrow> node \<Rightarrow> exc_class option \<times> node" where
  "replace_with_value ele cid v tree =
     (case v of
        JStr s \<Rightarrow>
          (case replace_with ele cid s tree of
             None \<Rightarrow> (Some IndexError, tree)
           | Some tree' \<Rightarrow> (None, tree'))
      | JNull \<Rightarrow>
          (case extract_node ele cid tree of
             None \<Rightarrow> (Some IndexError, tree)
           | Some tree' \<Rightarrow> (Some ValueError, tree'))
      | _ \<Rightarrow>
          (case extract_node ele cid tree of
             None \<Rightarrow> (Some IndexError, tree)
           | Some tree' \<Rightarrow> (Some AttributeError, tree')))"

text \<open>
  The loop \<open>for k, v in shreds_out.items()\<close> of \<open>restruct\<close>: the exception it stops
  with, if any, and the tree as the loop leaves it.
\<close>

fun apply_shreds :: "pylib \<Rightarrow> InlineGroup \<Rightarrow> jobj \<Rightarrow> node \<Rightarrow> exc_class option \<times> node" where
  "apply_shreds L grp [] tree = (None, tree)"
| "apply_shreds L grp ((k, v) # kvs) tree =
     (case int_of_str L k of
        None \<Rightarrow> (Some ValueError, tree)
      | Some i \<Rightarrow>
          (case py_index (cids grp) i of
             None \<Rightarrow> (Some IndexError, tree)
           | Some cid \<Rightarrow>
               (case py_index (elements grp) i of
                  None \<Rightarrow> (Some IndexError, tree)
                | Some ele \<Rightarrow>
                    (case replace_with_value ele cid v tree of
                       (Some e, tree') \<Rightarrow> (Some e, tree')
                     | (None, tree') \<Rightarrow> apply_shreds L grp kvs tree'))))"

text \<open>The statuses \<open>'S'\<close>, \<open>'C'\<close> and \<open>'F'\<close>.\<close>

datatype fit_status = Success | Compromise | Fail

text \<open>
  \<open>restruct\<close> and \<open>group_fit_in\<close>. The result is the status or the exception raised, the
  tree afterwards, and the number of chat calls made.
\<close>

type_synonym fit_result = "(exc_class + fit_status) \<times> node \<times> nat"

definition shreds_in_of :: "InlineGroup \<Rightarrow> str_dict" where
  "shreds_in_of grp = map (\<lambda>(i, shred). (str_nat i, shred)) (enumerate 0 (text_shreds grp))"

definition restruct ::
  "pylib \<Rightarrow> (nat \<Rightarrow> (exc_class, pystr) outcome) \<Rightarrow> node \<Rightarrow> InlineGroup \<Rightarrow> pystr \<Rightarrow> pystr \<Rightarrow>
   fit_result" where
  "restruct L chat tree grp ori transl =
     (let (fit_candidates, calls) = restruct_loop L chat (shreds_in_of grp) transl 0 [] in
      if fit_candidates \<noteq> []
      then let (max_score, shreds_out) = py_max fst fit_candidates in
           (case apply_shreds L grp shreds_out tree of
              (Some e, tree') \<Rightarrow> (Inl e, tree', calls)
            | (None, tree') \<Rightarrow> (Inr (if max_score < 1 then Compromise else Success), tree', calls))
      else (Inr Fail, tree, calls))"

definition group_fit_in ::
  "pylib \<Rightarrow> (nat \<Rightarrow> (exc_class, pystr) outcome) \<Rightarrow> node \<Rightarrow> InlineGroup \<Rightarrow> pystr \<Rightarrow> pystr \<Rightarrow>
   fit_result" where
  "group_fit_in L chat tree grp ori transl =
     (if match_score L (group_str grp) transl = 1 then (Inr Success, tree, 0)
      else if group_len grp = 1
      then (case (py_index (elements grp) 0, py_index (cids grp) 0) of
              (Some ele, Some cid) \<Rightarrow>
                (case replace_with ele cid transl tree of
                   None \<Rightarrow> (Inl IndexError, tree, 0)
                 | Some tree' \<Rightarrow> (Inr Success, tree', 0))
            | _ \<Rightarrow> (Inl IndexError, tree, 0))
      else restruct L chat tree grp ori transl)"

subsection \<open>Replacing a text leaf\<close>

text \<open>A position holds a text leaf.\<close>

definition is_text_at :: "path \<Rightarrow> node \<Rightarrow> bool" where
  "is_text_at p t = (case node_at p t of Some (NavigableString k s) \<Rightarrow> True | _ \<Rightarrow> False)"

lemma is_text_at_iff: "is_text_at p t \<longleftrightarrow> (\<exists>k s. node_at p t = Some (NavigableString k s))"
  by (auto simp: is_text_at_def split: option.splits node.splits)

lemma replace_with_defined:
  "is_text_at (ele @ [cid]) t \<Longrightarrow> \<exists>t'. replace_with ele cid v t = Some t'"
proof (induction ele arbitrary: t)
  case Nil
  then show ?case
    by (cases t) (auto simp: is_text_at_iff split: if_splits)
next
  case (Cons i ele)
  show ?case
  proof (cases t)
    case (Tag name contents)
    with Cons.prems have i: "i < length contents" and "is_text_at (ele @ [cid]) (contents ! i)"
      by (auto simp: is_text_at_iff split: if_splits)
    from Cons.IH [OF this(2)] obtain c where "replace_with ele cid v (contents ! i) = Some c"
      by blast
    with Tag i show ?thesis by simp
  next
    case (NavigableString k s)
    with Cons.prems show ?thesis by (simp add: is_text_at_iff)
  qed
qed

lemma replace_with_new:
  "replace_with ele cid v t = Some t' \<Longrightarrow>
     node_at (ele @ [cid]) t' = Some (NavigableString Plain v)"
proof (induction ele arbitrary: t t')
  case Nil
  then show ?case
    by (cases t) (auto split: if_splits)
next
  case (Cons i ele)
  show ?case
  proof (cases t)
    case (Tag name contents)
    with Cons.prems obtain c where i: "i < length contents"
      and c: "replace_with ele cid v (contents ! i) = Some c"
      and t': "t' = Tag name (contents[i := c])"
      by (auto split: if_splits option.splits)
    from Cons.IH [OF c] i t' show ?thesis by simp
  next
    case (NavigableString k s)
    with Cons.prems show ?thesis by simp
  qed
qed

lemma replace_with_other:
  "replace_with ele cid v t = Some t' \<Longrightarrow> is_text_at (ele @ [cid]) t \<Longrightarrow>
   is_text_at q t \<Longrightarrow> q \<noteq> ele @ [cid] \<Longrightarrow> node_at q t' = node_at q t"
proof (induction ele arbitrary: t t' q)
  case Nil
  show ?case
  proof (cases t)
    case (Tag name contents)
    with Nil.prems(1) have cid: "cid < length contents"
      and t': "t' = Tag name (contents[cid := NavigableString Plain v])"
      by (auto split: if_splits)
    from Nil.prems(3) Tag obtain j q' where q: "q = j # q'" and j: "j < length contents"
      and tq: "is_text_at q' (contents ! j)"
      by (cases q) (auto simp: is_text_at_iff split: if_splits)
    have "j \<noteq> cid"
    proof
      assume "j = cid"
      with Nil.prems(2) Tag cid obtain k s where "contents ! j = NavigableString k s"
        by (auto simp: is_text_at_iff)
      with tq have "q' = []"
        by (cases q') (auto simp: is_text_at_iff)
      with q \<open>j = cid\<close> Nil.prems(4) show False by simp
    qed
    with Tag t' q j show ?thesis by simp
  next
    case (NavigableString k s)
    with Nil.prems(1) show ?thesis by simp
  qed
next
  case (Cons i ele)
  show ?case
  proof (cases t)
    case (Tag name contents)
    with Cons.prems(1) obtain c where i: "i < length contents"
      and c: "replace_with ele cid v (contents ! i) = Some c"
      and t': "t' = Tag name (contents[i := c])"
      by (auto split: if_splits option.splits)
    from Cons.prems(2) Tag i have tp: "is_text_at (ele @ [cid]) (contents ! i)"
      by (simp add: is_text_at_iff)
    from Cons.prems(3) Tag obtain j q' where q: "q = j # q'" and j: "j < length contents"
      and tq: "is_text_at q' (contents ! j)"
      by (cases q) (auto simp: is_text_at_iff split: if_splits)
    show ?thesis
    proof (cases "j = i")
      case True
      with q Cons.prems(4) have "q' \<noteq> ele @ [cid]" by simp
      from Cons.IH [OF c tp _ this] tq True
      have "node_at q' c = node_at q' (contents ! i)" by simp
      with Tag t' q i True show ?thesis by simp
    next
      case False
      with Tag t' q j show ?thesis by simp
    qed
  next
    case (NavigableString k s)
    with Cons.prems(1) show ?thesis by simp
  qed
qed

lemma replace_with_keeps_text:
  assumes "replace_with ele cid v t = Some t'" and "is_text_at (ele @ [cid]) t"
    and "is_text_at q t"
  shows "is_text_at q t'"
proof (cases "q = ele @ [cid]")
  case True
  with replace_with_new [OF assms(1)] show ?thesis by (simp add: is_text_at_iff)
next
  case False
  from replace_with_other [OF assms False] assms(3) show ?thesis
    by (simp add: is_text_at_iff)
qed

subsection \<open>The apply loop\<close>

text \<open>The position of the shred that a Python index selects in a group.\<close>

definition shred_pos :: "InlineGroup \<Rightarrow> int \<Rightarrow> path option" where
  "shred_pos grp i =
     (case (py_index (elements grp) i, py_index (cids grp) i) of
        (Some ele, Some cid) \<Rightarrow> Some (ele @ [cid])
      | _ \<Rightarrow> None)"

text \<open>
  A group fits a tree when its three lists have one length, as \<open>__post_init__\<close> asserts,
  and each of its positions holds a text leaf of the tree.
\<close>

definition group_in_tree :: "node \<Rightarrow> InlineGroup \<Rightarrow> bool" where
  "group_in_tree tree grp \<longleftrightarrow>
     length (cids grp) = group_len grp \<and> length (elements grp) = group_len grp
     \<and> (\<forall>p \<in> set (group_positions grp). is_text_at p tree)"

text \<open>
  Every key of a candidate is the text of an integer that indexes the group, from the
  front or, when negative, from the end.
\<close>

definition keys_index_group :: "pylib \<Rightarrow> InlineGroup \<Rightarrow> jobj \<Rightarrow> bool" where
  "keys_index_group L grp shreds_out \<longleftrightarrow>
     (\<forall>kv \<in> set shreds_out.
        case int_of_str L (fst kv) of
          None \<Rightarrow> False
        | Some i \<Rightarrow> - int (group_len grp) \<le> i \<and> i < int (group_len grp))"

text \<open>Every value of a candidate is a string.\<close>

fun is_str :: "jval \<Rightarrow> bool" where
  "is_str (JStr s) = True"
| "is_str v = False"

definition values_are_str :: "jobj \<Rightarrow> bool" where
  "values_are_str shreds_out \<longleftrightarrow> (\<forall>kv \<in> set shreds_out. is_str (snd kv))"

text \<open>
  The substitutions a candidate of strings asks for, in the order of its items: the
  position of the shred and the text to put there.
\<close>

fun str_of :: "jval \<Rightarrow> pystr" where
  "str_of (JStr s) = s"
| "str_of v = []"

definition substitutions :: "pylib \<Rightarrow> InlineGroup \<Rightarrow> jobj \<Rightarrow> (path \<times> pystr) list" where
  "substitutions L grp shreds_out =
     map (\<lambda>kv. (the (shred_pos grp (the (int_of_str L (fst kv)))), str_of (snd kv))) shreds_out"

lemma is_str_iff: "is_str v \<longleftrightarrow> (\<exists>s. v = JStr s)"
  by (cases v) auto

lemma str_join_iff: "(\<exists>r. str_join vs = Some r) \<longleftrightarrow> (\<forall>v \<in> set vs. is_str v)"
proof (induction vs)
  case Nil
  show ?case by simp
next
  case (Cons v vs)
  then show ?case by (cases v) (auto split: option.splits)
qed

lemma py_index_Some_iff:
  "(\<exists>x. py_index xs i = Some x) \<longleftrightarrow> - int (length xs) \<le> i \<and> i < int (length xs)"
  by (auto simp: py_index_def)

lemma shred_pos_in_group:
  assumes "length (cids grp) = n" and "length (elements grp) = n"
    and "- int n \<le> i" and "i < int n"
  shows "\<exists>ele cid. py_index (elements grp) i = Some ele \<and> py_index (cids grp) i = Some cid
     \<and> shred_pos grp i = Some (ele @ [cid]) \<and> ele @ [cid] \<in> set (group_positions grp)"
proof -
  define j where "j = (if 0 \<le> i then nat i else nat (int n + i))"
  have j: "j < n" using assms(3,4) by (auto simp: j_def)
  have e: "py_index (elements grp) i = Some (elements grp ! j)"
    using assms by (auto simp: py_index_def j_def)
  have c: "py_index (cids grp) i = Some (cids grp ! j)"
    using assms by (auto simp: py_index_def j_def)
  have "(elements grp ! j, cids grp ! j) \<in> set (zip (elements grp) (cids grp))"
    using j assms(1,2) by (auto simp: set_zip)
  then have "elements grp ! j @ [cids grp ! j] \<in> set (group_positions grp)"
    by (force simp: group_positions_def)
  with e c show ?thesis by (simp add: shred_pos_def)
qed

lemma map_of_snoc:
  "map_of (xs @ [(p, v)]) q =
     (case map_of xs q of None \<Rightarrow> (if q = p then Some v else None) | Some x \<Rightarrow> Some x)"
  by (induction xs) (auto split: option.splits)

lemma apply_shreds_substitutes:
  assumes "group_in_tree tree grp" and "keys_index_group L grp shreds_out"
    and "values_are_str shreds_out"
  shows "\<exists>tree'. apply_shreds L grp shreds_out tree = (None, tree')
     \<and> group_in_tree tree' grp
     \<and> (\<forall>q. is_text_at q tree \<longrightarrow>
           node_at q tree' =
             (case map_of (rev (substitutions L grp shreds_out)) q of
                None \<Rightarrow> node_at q tree
              | Some v \<Rightarrow> Some (NavigableString Plain v)))"
  using assms
proof (induction shreds_out arbitrary: tree)
  case Nil
  then show ?case by (simp add: substitutions_def)
next
  case (Cons kv rest)
  from Cons.prems(3) obtain k v where kv: "kv = (k, JStr v)"
    and strs: "values_are_str rest"
    by (cases kv) (auto simp: values_are_str_def is_str_iff)
  from Cons.prems(2) kv obtain i where i: "int_of_str L k = Some i"
    and lo: "- int (group_len grp) \<le> i" and hi: "i < int (group_len grp)"
    and rest: "keys_index_group L grp rest"
    by (auto simp: keys_index_group_def split: option.splits)
  from Cons.prems(1) have len: "length (cids grp) = group_len grp"
      "length (elements grp) = group_len grp"
    by (auto simp: group_in_tree_def)
  from shred_pos_in_group [OF len lo hi] obtain ele cid where
    e: "py_index (elements grp) i = Some ele" and c: "py_index (cids grp) i = Some cid"
    and sp: "shred_pos grp i = Some (ele @ [cid])"
    and mem: "ele @ [cid] \<in> set (group_positions grp)"
    by blast
  from Cons.prems(1) mem have leaf: "is_text_at (ele @ [cid]) tree"
    by (auto simp: group_in_tree_def)
  from replace_with_defined [OF leaf] obtain tree1 where
    r: "replace_with ele cid v tree = Some tree1"
    by blast
  have in1: "group_in_tree tree1 grp"
    using Cons.prems(1) replace_with_keeps_text [OF r leaf]
    by (auto simp: group_in_tree_def)
  from Cons.IH [OF in1 rest strs] obtain tree' where
    a: "apply_shreds L grp rest tree1 = (None, tree')" and in': "group_in_tree tree' grp"
    and sub: "\<forall>q. is_text_at q tree1 \<longrightarrow>
           node_at q tree' =
             (case map_of (rev (substitutions L grp rest)) q of
                None \<Rightarrow> node_at q tree1
              | Some v \<Rightarrow> Some (NavigableString Plain v))"
    by blast
  have ap: "apply_shreds L grp (kv # rest) tree = (None, tree')"
    using kv i e c r a by (simp add: replace_with_value_def)
  have subs: "substitutions L grp (kv # rest) = (ele @ [cid], v) # substitutions L grp rest"
    using kv i sp by (simp add: substitutions_def)
  have "node_at q tree' =
             (case map_of (rev (substitutions L grp (kv # rest))) q of
                None \<Rightarrow> node_at q tree
              | Some v \<Rightarrow> Some (NavigableString Plain v))"
    if q: "is_text_at q tree" for q
  proof -
    have q1: "is_text_at q tree1"
      by (rule replace_with_keeps_text [OF r leaf q])
    have mo: "map_of (rev (substitutions L grp (kv # rest))) q =
        (case map_of (rev (substitutions L grp rest)) q of
           None \<Rightarrow> (if q = ele @ [cid] then Some v else None)
         | Some x \<Rightarrow> Some x)"
      unfolding subs by (simp only: rev.simps map_of_snoc)
    show ?thesis
    proof (cases "map_of (rev (substitutions L grp rest)) q")
      case (Some x)
      with sub q1 show ?thesis unfolding mo by simp
    next
      case None
      show ?thesis
      proof (cases "q = ele @ [cid]")
        case True
        with None sub q1 replace_with_new [OF r] show ?thesis
          unfolding mo by simp
      next
        case False
        with None sub q1 replace_with_other [OF r leaf q False] show ?thesis
          unfolding mo by simp
      qed
    qed
  qed
  with ap in' show ?case by blast
qed

lemma replace_with_value_returns:
  "replace_with_value ele cid v tree = (None, tree') \<Longrightarrow> is_str v"
  by (cases v) (auto simp: replace_with_value_def split: option.splits)

lemma replace_with_value_raises:
  "replace_with_value ele cid v tree = (Some e, tree') \<Longrightarrow>
     e \<in> {ValueError, IndexError, AttributeError}"
  by (cases v) (auto simp: replace_with_value_def split: option.splits)

lemma apply_shreds_returns_keys:
  assumes "apply_shreds L grp shreds_out tree = (None, tree')"
    and "length (cids grp) = group_len grp"
  shows "keys_index_group L grp shreds_out \<and> values_are_str shreds_out"
  using assms
proof (induction shreds_out arbitrary: tree)
  case Nil
  show ?case by (simp add: keys_index_group_def values_are_str_def)
next
  case (Cons kv rest)
  obtain k v where kv: "kv = (k, v)" by (cases kv)
  from Cons.prems(1) kv obtain i cid ele tree1 where i: "int_of_str L k = Some i"
    and c: "py_index (cids grp) i = Some cid"
    and r: "replace_with_value ele cid v tree = (None, tree1)"
    and a: "apply_shreds L grp rest tree1 = (None, tree')"
    by (auto split: option.splits prod.splits)
  from c py_index_Some_iff [of "cids grp" i] Cons.prems(2)
  have "- int (group_len grp) \<le> i \<and> i < int (group_len grp)"
    by auto
  with Cons.IH [OF a Cons.prems(2)] kv i replace_with_value_returns [OF r] show ?case
    by (simp add: keys_index_group_def values_are_str_def)
qed

lemma apply_shreds_raises:
  "apply_shreds L grp shreds_out tree = (Some e, tree') \<Longrightarrow>
     e \<in> {ValueError, IndexError, AttributeError}"
proof (induction shreds_out arbitrary: tree)
  case Nil
  then show ?case by simp
next
  case (Cons kv rest)
  obtain k v where kv: "kv = (k, v)" by (cases kv)
  show ?case
  proof (cases "int_of_str L k")
    case None
    with Cons.prems kv show ?thesis by simp
  next
    case i: (Some i)
    show ?thesis
    proof (cases "py_index (cids grp) i")
      case None
      with Cons.prems kv i show ?thesis by simp
    next
      case c: (Some cid)
      show ?thesis
      proof (cases "py_index (elements grp) i")
        case None
        with Cons.prems kv i c show ?thesis by simp
      next
        case el: (Some ele)
        obtain eo tree1 where r: "replace_with_value ele cid v tree = (eo, tree1)"
          by (cases "replace_with_value ele cid v tree")
        show ?thesis
        proof (cases eo)
          case None
          with Cons.prems kv i c el r have "apply_shreds L grp rest tree1 = (Some e, tree')"
            by simp
          then show ?thesis by (rule Cons.IH)
        next
          case (Some e')
          with Cons.prems kv i c el r have "e' = e" by simp
          with Some r replace_with_value_raises [of ele cid v tree e tree1] show ?thesis
            by simp
        qed
      qed
    qed
  qed
qed

subsection \<open>The choice of the candidate\<close>

lemma max_from_first_max:
  "\<exists>j \<le> length xs. max_from key b xs = (b # xs) ! j
     \<and> (\<forall>c \<in> set (b # xs). key c \<le> key ((b # xs) ! j))
     \<and> (\<forall>i < j. key ((b # xs) ! i) < key ((b # xs) ! j))"
proof (induction xs arbitrary: b)
  case Nil
  show ?case by simp
next
  case (Cons y ys)
  let ?b' = "if key y > key b then y else b"
  from Cons.IH [of ?b'] obtain j where j: "j \<le> length ys"
    and m: "max_from key ?b' ys = (?b' # ys) ! j"
    and ge: "\<forall>c \<in> set (?b' # ys). key c \<le> key ((?b' # ys) ! j)"
    and lt: "\<forall>i < j. key ((?b' # ys) ! i) < key ((?b' # ys) ! j)"
    by blast
  show ?case
  proof (cases "key y > key b")
    case True
    have "Suc j \<le> length (y # ys)" using j by simp
    moreover have "max_from key b (y # ys) = (b # y # ys) ! Suc j"
      using m True by simp
    moreover have "\<forall>c \<in> set (b # y # ys). key c \<le> key ((b # y # ys) ! Suc j)"
      using ge True by force
    moreover have "\<forall>i < Suc j. key ((b # y # ys) ! i) < key ((b # y # ys) ! Suc j)"
    proof (intro allI impI)
      fix i assume "i < Suc j"
      show "key ((b # y # ys) ! i) < key ((b # y # ys) ! Suc j)"
      proof (cases i)
        case 0
        have "key y \<le> key ((y # ys) ! j)" using ge True by simp
        with True 0 show ?thesis by simp
      next
        case (Suc i')
        with \<open>i < Suc j\<close> lt True show ?thesis by simp
      qed
    qed
    ultimately show ?thesis by blast
  next
    case False
    show ?thesis
    proof (cases j)
      case 0
      have "0 \<le> length (y # ys)" by simp
      moreover have "max_from key b (y # ys) = (b # y # ys) ! 0"
        using m False 0 by simp
      moreover have "\<forall>c \<in> set (b # y # ys). key c \<le> key ((b # y # ys) ! 0)"
        using ge False 0 by force
      ultimately show ?thesis by blast
    next
      case (Suc j')
      have "Suc j \<le> length (y # ys)" using j by simp
      moreover have "max_from key b (y # ys) = (b # y # ys) ! Suc j"
        using m False Suc by simp
      moreover have ge': "\<forall>c \<in> set (b # y # ys). key c \<le> key ((b # y # ys) ! Suc j)"
        using ge False Suc by force
      moreover have "\<forall>i < Suc j. key ((b # y # ys) ! i) < key ((b # y # ys) ! Suc j)"
      proof (intro allI impI)
        fix i assume i: "i < Suc j"
        have b: "key b < key ((b # ys) ! j)" using lt False Suc by force
        show "key ((b # y # ys) ! i) < key ((b # y # ys) ! Suc j)"
        proof (cases i)
          case 0
          with b Suc show ?thesis by simp
        next
          case (Suc i')
          show ?thesis
          proof (cases i')
            case 0
            with \<open>i = Suc i'\<close> b False \<open>j = Suc j'\<close> show ?thesis by simp
          next
            case (Suc i'')
            with \<open>i = Suc i'\<close> i lt False \<open>j = Suc j'\<close> show ?thesis by force
          qed
        qed
      qed
      ultimately show ?thesis by blast
    qed
  qed
qed

lemma py_max_first_max:
  assumes "xs \<noteq> []"
  shows "\<exists>j < length xs. py_max key xs = xs ! j
     \<and> (\<forall>c \<in> set xs. key c \<le> key (xs ! j))
     \<and> (\<forall>i < j. key (xs ! i) < key (xs ! j))"
proof -
  from assms obtain b ys where xs: "xs = b # ys" by (cases xs) auto
  from max_from_first_max [of ys key b] xs show ?thesis
    by (auto simp: py_max_def less_Suc_eq_le)
qed

subsection \<open>The retry loop of restruct\<close>

lemma restruct_try_append:
  "restruct_try L reply shreds_in transl fit_candidates =
     (fst (restruct_try L reply shreds_in transl []),
      fit_candidates @ snd (restruct_try L reply shreds_in transl []))"
  by (auto simp: restruct_try_def split: outcome.splits option.splits sum.splits prod.splits)

lemma validate_fit_in_score:
  assumes "\<forall>a b. difflib_ratio L a b \<le> 1"
    and "validate_fit_in L shreds_in transl shreds_out = Inr (score, err)"
  shows "score \<le> 1"
  using assms
  by (auto simp: validate_fit_in_def match_score_def Let_def split: if_splits option.splits)

lemma restruct_try_score:
  assumes "\<forall>a b. difflib_ratio L a b \<le> 1"
    and "c \<in> set (snd (restruct_try L reply shreds_in transl []))"
  shows "fst c \<le> 1"
  using assms validate_fit_in_score [OF assms(1)]
  by (auto simp: restruct_try_def split: outcome.splits option.splits sum.splits if_splits)

text \<open>
  What the loop returns, started at \<open>retry\<close> with the candidates so far: it makes the
  attempts \<open>retry, \<dots>, calls - 1\<close>, none but the last reaches the \<open>break\<close>, it stops
  before the eleventh attempt only through the \<open>break\<close>, and the candidates are those so
  far followed by what each attempt made appended.
\<close>

lemma restruct_loop_result:
  "restruct_loop L chat shreds_in transl retry fit_candidates = (cands, calls) \<Longrightarrow>
   retry \<le> max_retry \<Longrightarrow>
     retry < calls \<and> calls \<le> max_retry + 1
     \<and> cands = fit_candidates
          @ concat (map (\<lambda>n. snd (restruct_try L (chat n) shreds_in transl [])) [retry..<calls])
     \<and> (\<forall>n. retry \<le> n \<and> n + 1 < calls \<longrightarrow> \<not> fst (restruct_try L (chat n) shreds_in transl []))
     \<and> (calls \<le> max_retry \<longrightarrow> fst (restruct_try L (chat (calls - 1)) shreds_in transl []))"
proof (induction L chat shreds_in transl retry fit_candidates arbitrary: cands calls
       rule: restruct_loop.induct)
  case (1 L chat shreds_in transl retry fit_candidates)
  let ?t = "restruct_try L (chat retry) shreds_in transl []"
  have try_eq: "restruct_try L (chat retry) shreds_in transl fit_candidates
      = (fst ?t, fit_candidates @ snd ?t)"
    by (rule restruct_try_append)
  show ?case
  proof (cases "fst ?t")
    case True
    with "1.prems"(1) try_eq have "cands = fit_candidates @ snd ?t" and "calls = retry + 1"
      by (auto simp: restruct_loop.simps [of L chat shreds_in transl retry fit_candidates])
    with True "1.prems"(2) show ?thesis by auto
  next
    case False
    show ?thesis
    proof (cases "retry + 1 > max_retry")
      case over: True
      with False "1.prems"(1) try_eq have "cands = fit_candidates @ snd ?t" and "calls = retry + 1"
        by (auto simp: restruct_loop.simps [of L chat shreds_in transl retry fit_candidates])
      with over "1.prems"(2) show ?thesis by auto
    next
      case more: False
      with False "1.prems"(1) try_eq
      have rec: "restruct_loop L chat shreds_in transl (retry + 1) (fit_candidates @ snd ?t)
          = (cands, calls)"
        by (auto simp: restruct_loop.simps [of L chat shreds_in transl retry fit_candidates])
      have le: "retry + 1 \<le> max_retry" using more by simp
      from False try_eq
      have t: "(False, fit_candidates @ snd ?t)
          = restruct_try L (chat retry) shreds_in transl fit_candidates"
        by simp
      from "1.IH" [OF t refl more rec le]
      have lt: "retry + 1 < calls" and up: "calls \<le> max_retry + 1"
        and c: "cands = (fit_candidates @ snd ?t)
          @ concat (map (\<lambda>n. snd (restruct_try L (chat n) shreds_in transl [])) [retry + 1..<calls])"
        and f: "\<forall>n. retry + 1 \<le> n \<and> n + 1 < calls \<longrightarrow>
            \<not> fst (restruct_try L (chat n) shreds_in transl [])"
        and b: "calls \<le> max_retry \<longrightarrow> fst (restruct_try L (chat (calls - 1)) shreds_in transl [])"
        by auto
      have upt: "[retry..<calls] = retry # [retry + 1..<calls]"
        using lt by (simp add: upt_conv_Cons)
      have "\<forall>n. retry \<le> n \<and> n + 1 < calls \<longrightarrow>
            \<not> fst (restruct_try L (chat n) shreds_in transl [])"
      proof (intro allI impI)
        fix n assume n: "retry \<le> n \<and> n + 1 < calls"
        show "\<not> fst (restruct_try L (chat n) shreds_in transl [])"
        proof (cases "n = retry")
          case True
          with False show ?thesis by simp
        next
          case False
          with n f show ?thesis by simp
        qed
      qed
      with lt up c b upt show ?thesis by simp
    qed
  qed
qed

lemma restruct_loop_scores:
  assumes "\<forall>a b. difflib_ratio L a b \<le> 1"
    and "restruct_loop L chat shreds_in transl 0 [] = (cands, calls)"
    and "c \<in> set cands"
  shows "fst c \<le> 1"
proof -
  from restruct_loop_result [OF assms(2)] assms(3)
  obtain n where "c \<in> set (snd (restruct_try L (chat n) shreds_in transl []))"
    by auto
  then show ?thesis by (rule restruct_try_score [OF assms(1)])
qed

subsection \<open>Theorems about the fit-back\<close>

text \<open>
  An instance of the library for the closed examples below. Its similarity is 1 on equal
  texts and 0 on others, which is the value of difflib's ratio for equal texts and for
  texts that share no character; the examples use only such pairs. Its texts are lower
  case already. Its \<open>json_loads\<close> and \<open>int_of_str\<close> are tables of the values that
  \<open>json.loads\<close> and \<open>int\<close> return on the texts the examples use.
\<close>

definition example_lib :: pylib where
  "example_lib =
     \<lparr>difflib_ratio = (\<lambda>a b. if a = b then 1 else 0),
      str_lower = (\<lambda>s. s),
      json_loads = (\<lambda>s.
        if s = py ''{\"0\": \"pq\", \"1\": \"rs\"}''
        then Some [(py ''0'', JStr (py ''pq'')), (py ''1'', JStr (py ''rs''))]
        else if s = py ''{\"0\": \"pq\", \"-1\": \"rs\"}''
        then Some [(py ''0'', JStr (py ''pq'')), (py ''-1'', JStr (py ''rs''))]
        else if s = py ''{\"2\": \"pq\", \"3\": \"rs\"}''
        then Some [(py ''2'', JStr (py ''pq'')), (py ''3'', JStr (py ''rs''))]
        else if s = py ''{\"0\": \"pqrs\"}''
        then Some [(py ''0'', JStr (py ''pqrs''))]
        else if s = py ''{\"0\": null}''
        then Some [(py ''0'', JNull)]
        else None),
      int_of_str = (\<lambda>k.
        if k = py ''0'' then Some 0 else if k = py ''1'' then Some 1
        else if k = py ''2'' then Some 2 else if k = py ''3'' then Some 3
        else if k = py ''-1'' then Some (- 1) else None)\<rparr>"

text \<open>The paragraph \<open><p>ab<b>cd</b></p>\<close> and its group of two shreds.\<close>

definition example_tree :: node where
  "example_tree =
     Tag (py ''p'') [NavigableString Plain (py ''ab''),
                    Tag (py ''b'') [NavigableString Plain (py ''cd'')]]"

definition example_group :: InlineGroup where
  "example_group = \<lparr>text_shreds = [py ''ab'', py ''cd''], cids = [0, 0], elements = [[], [1]]\<rparr>"

text \<open>
  Claim C5. \<open>group_fit_in\<close> returns Success and leaves the tree as it is when the match
  score of the group's text and the translated text is 1.0. Otherwise, for a group of
  exactly one shred (whose leaf is in the tree), it returns Success, the leaf of that shred
  holds the translated text afterwards, every other text leaf is unchanged, and no chat
  call is made.
\<close>

theorem group_fit_in_direct:
  "(match_score L (group_str grp) transl = 1 \<longrightarrow>
      group_fit_in L chat tree grp ori transl = (Inr Success, tree, 0))
   \<and> (match_score L (group_str grp) transl \<noteq> 1 \<and> group_len grp = 1 \<and> group_in_tree tree grp \<longrightarrow>
      (\<exists>tree' ele cid.
          elements grp = [ele] \<and> cids grp = [cid]
          \<and> group_fit_in L chat tree grp ori transl = (Inr Success, tree', 0)
          \<and> node_at (ele @ [cid]) tree' = Some (NavigableString Plain transl)
          \<and> (\<forall>q. is_text_at q tree \<and> q \<noteq> ele @ [cid] \<longrightarrow> node_at q tree' = node_at q tree)))"
proof -
  have single: "\<exists>tree' ele cid.
          elements grp = [ele] \<and> cids grp = [cid]
          \<and> group_fit_in L chat tree grp ori transl = (Inr Success, tree', 0)
          \<and> node_at (ele @ [cid]) tree' = Some (NavigableString Plain transl)
          \<and> (\<forall>q. is_text_at q tree \<and> q \<noteq> ele @ [cid] \<longrightarrow> node_at q tree' = node_at q tree)"
    if ms: "match_score L (group_str grp) transl \<noteq> 1" and one: "group_len grp = 1"
      and fits: "group_in_tree tree grp"
  proof -
    from fits one have "length (elements grp) = 1" and "length (cids grp) = 1"
      by (auto simp: group_in_tree_def)
    then obtain ele cid where e: "elements grp = [ele]" and c: "cids grp = [cid]"
      by (auto simp: length_Suc_conv)
    with fits have leaf: "is_text_at (ele @ [cid]) tree"
      by (simp add: group_in_tree_def group_positions_def)
    from replace_with_defined [OF leaf] obtain tree' where
      r: "replace_with ele cid transl tree = Some tree'"
      by blast
    have "group_fit_in L chat tree grp ori transl = (Inr Success, tree', 0)"
      using ms one e c r by (simp add: group_fit_in_def py_index_def)
    moreover have "node_at (ele @ [cid]) tree' = Some (NavigableString Plain transl)"
      by (rule replace_with_new [OF r])
    moreover have "\<forall>q. is_text_at q tree \<and> q \<noteq> ele @ [cid] \<longrightarrow> node_at q tree' = node_at q tree"
      using replace_with_other [OF r leaf] by blast
    ultimately show ?thesis using e c by blast
  qed
  have same: "group_fit_in L chat tree grp ori transl = (Inr Success, tree, 0)"
    if "match_score L (group_str grp) transl = 1"
    using that by (simp add: group_fit_in_def)
  from same single show ?thesis by blast
qed

text \<open>
  Both parts on \<open><p>Settings</p>\<close>: translated to the same word, the tree stays; translated
  to \<open>Einstellungen\<close>, the leaf is replaced, with no chat call.
\<close>

theorem group_fit_in_direct_witness:
  "group_fit_in example_lib (\<lambda>n. Raise ServiceError)
      (Tag (py ''p'') [NavigableString Plain (py ''settings'')])
      \<lparr>text_shreds = [py ''settings''], cids = [0], elements = [[]]\<rparr>
      (py ''settings'') (py ''settings'')
     = (Inr Success, Tag (py ''p'') [NavigableString Plain (py ''settings'')], 0)
   \<and> group_fit_in example_lib (\<lambda>n. Raise ServiceError)
      (Tag (py ''p'') [NavigableString Plain (py ''settings'')])
      \<lparr>text_shreds = [py ''settings''], cids = [0], elements = [[]]\<rparr>
      (py ''settings'') (py ''vwxyz'')
     = (Inr Success, Tag (py ''p'') [NavigableString Plain (py ''vwxyz'')], 0)"
proof -
  let ?tree = "Tag (py ''p'') [NavigableString Plain (py ''settings'')]"
  let ?grp = "\<lparr>text_shreds = [py ''settings''], cids = [0], elements = [[]]\<rparr>"
  let ?chat = "\<lambda>n::nat. (Raise ServiceError :: (exc_class, pystr) outcome)"
  have m1: "match_score example_lib (group_str ?grp) (py ''settings'') = 1"
    by (simp add: match_score_def example_lib_def group_str_def)
  have m2: "match_score example_lib (group_str ?grp) (py ''vwxyz'') \<noteq> 1"
    by (simp add: match_score_def example_lib_def group_str_def py_def compact_tab_def)
  have one: "group_len ?grp = 1"
    by code_simp
  have fits: "group_in_tree ?tree ?grp"
    by code_simp
  from group_fit_in_direct [of example_lib ?grp "py ''settings''" ?chat ?tree "py ''settings''"] m1
  have a: "group_fit_in example_lib ?chat ?tree ?grp (py ''settings'') (py ''settings'')
      = (Inr Success, ?tree, 0)"
    by blast
  from group_fit_in_direct [of example_lib ?grp "py ''vwxyz''" ?chat ?tree "py ''settings''"]
    m2 one fits
  obtain tree' where b: "group_fit_in example_lib ?chat ?tree ?grp (py ''settings'') (py ''vwxyz'')
      = (Inr Success, tree', 0)"
    by blast
  have r: "replace_with [] 0 (py ''vwxyz'') ?tree
      = Some (Tag (py ''p'') [NavigableString Plain (py ''vwxyz'')])"
    by simp
  have "group_fit_in example_lib ?chat ?tree ?grp (py ''settings'') (py ''vwxyz'')
      = (Inr Success, Tag (py ''p'') [NavigableString Plain (py ''vwxyz'')], 0)"
    using m2 one r by (simp add: group_fit_in_def py_index_def)
  with a b show ?thesis by simp
qed

lemma restruct_loop_unfold:
  "restruct_loop L chat shreds_in transl retry fit_candidates =
     (if fst (restruct_try L (chat retry) shreds_in transl [])
      then (fit_candidates @ snd (restruct_try L (chat retry) shreds_in transl []), retry + 1)
      else if retry + 1 > max_retry
      then (fit_candidates @ snd (restruct_try L (chat retry) shreds_in transl []), retry + 1)
      else restruct_loop L chat shreds_in transl (retry + 1)
             (fit_candidates @ snd (restruct_try L (chat retry) shreds_in transl [])))"
  by (subst restruct_loop.simps, subst restruct_try_append) simp

lemma restruct_try_break_appends:
  "fst (restruct_try L reply shreds_in transl []) \<Longrightarrow>
     snd (restruct_try L reply shreds_in transl []) \<noteq> []"
  by (auto simp: restruct_try_def split: outcome.splits option.splits sum.splits if_splits)

lemma length_shreds_in_of: "length (shreds_in_of grp) = group_len grp"
  by (simp add: shreds_in_of_def group_len_def)

lemma restruct_no_candidates:
  assumes "restruct_loop L chat shreds_in transl 0 [] = (cands, calls)"
  shows "cands = [] \<longleftrightarrow> (\<forall>n \<le> max_retry. snd (restruct_try L (chat n) shreds_in transl []) = [])"
    and "cands = [] \<Longrightarrow> calls = max_retry + 1"
proof -
  from restruct_loop_result [OF assms]
  have lt: "0 < calls" and up: "calls \<le> max_retry + 1"
    and c: "cands = concat (map (\<lambda>n. snd (restruct_try L (chat n) shreds_in transl [])) [0..<calls])"
    and b: "calls \<le> max_retry \<longrightarrow> fst (restruct_try L (chat (calls - 1)) shreds_in transl [])"
    by auto
  have all: "calls = max_retry + 1" if e: "cands = []"
  proof (rule ccontr)
    assume "calls \<noteq> max_retry + 1"
    with up have le: "calls \<le> max_retry" by simp
    with b have "snd (restruct_try L (chat (calls - 1)) shreds_in transl []) \<noteq> []"
      by (simp add: restruct_try_break_appends)
    moreover from e c lt have "snd (restruct_try L (chat (calls - 1)) shreds_in transl []) = []"
      by auto
    ultimately show False by simp
  qed
  then show "cands = [] \<Longrightarrow> calls = max_retry + 1" .
  show "cands = [] \<longleftrightarrow> (\<forall>n \<le> max_retry. snd (restruct_try L (chat n) shreds_in transl []) = [])"
  proof
    assume e: "cands = []"
    with all have "calls = max_retry + 1" by simp
    with e c show "\<forall>n \<le> max_retry. snd (restruct_try L (chat n) shreds_in transl []) = []"
      by auto
  next
    assume "\<forall>n \<le> max_retry. snd (restruct_try L (chat n) shreds_in transl []) = []"
    with c up show "cands = []" by auto
  qed
qed

lemma restruct_unfold:
  assumes "restruct_loop L chat (shreds_in_of grp) transl 0 [] = (cands, calls)"
  shows "restruct L chat tree grp ori transl =
     (if cands \<noteq> []
      then (case apply_shreds L grp (snd (py_max fst cands)) tree of
              (Some e, tree') \<Rightarrow> (Inl e, tree', calls)
            | (None, tree') \<Rightarrow>
                (Inr (if fst (py_max fst cands) < 1 then Compromise else Success), tree', calls))
      else (Inr Fail, tree, calls))"
  using assms by (auto simp: restruct_def Let_def case_prod_unfold split: option.splits)

lemma restruct_returns_iff:
  assumes "restruct_loop L chat (shreds_in_of grp) transl 0 [] = (cands, calls)"
    and "cands \<noteq> []"
  shows "(\<exists>st tree'. restruct L chat tree grp ori transl = (Inr st, tree', calls))
     \<longleftrightarrow> (\<exists>tree'. apply_shreds L grp (snd (py_max fst cands)) tree = (None, tree'))"
proof (cases "apply_shreds L grp (snd (py_max fst cands)) tree")
  case (Pair eo tree1)
  then show ?thesis
    using restruct_unfold [OF assms(1), of tree ori] assms(2)
    by (cases eo) auto
qed

lemma restruct_raises_iff:
  assumes "restruct_loop L chat (shreds_in_of grp) transl 0 [] = (cands, calls)"
    and "cands \<noteq> []"
  shows "(\<exists>e tree'. restruct L chat tree grp ori transl = (Inl e, tree', calls)
            \<and> e \<in> {ValueError, IndexError, AttributeError})
     \<longleftrightarrow> (\<forall>tree'. apply_shreds L grp (snd (py_max fst cands)) tree \<noteq> (None, tree'))"
proof (cases "apply_shreds L grp (snd (py_max fst cands)) tree")
  case (Pair eo tree1)
  show ?thesis
  proof (cases eo)
    case None
    with Pair show ?thesis
      using restruct_unfold [OF assms(1), of tree ori] assms(2) by auto
  next
    case (Some e)
    with Pair apply_shreds_raises [of L grp "snd (py_max fst cands)" tree e tree1]
    show ?thesis
      using restruct_unfold [OF assms(1), of tree ori] assms(2) by auto
  qed
qed

lemma restruct_try_member:
  "c \<in> set (snd (restruct_try L reply shreds_in transl [])) \<Longrightarrow>
     \<exists>response err. reply = Return response \<and> as_json_obj L response = Some (snd c)
        \<and> snd c \<noteq> [] \<and> validate_fit_in L shreds_in transl (snd c) = Inr (fst c, err)"
  by (auto simp: restruct_try_def split: outcome.splits option.splits sum.splits if_splits)

lemma restruct_try_break_score:
  "fst (restruct_try L reply shreds_in transl []) \<Longrightarrow>
     \<exists>shreds_out. snd (restruct_try L reply shreds_in transl []) = [(1, shreds_out)]"
  by (auto simp: restruct_try_def validate_fit_in_def Let_def
      split: outcome.splits option.splits sum.splits if_splits)

lemma validate_fit_in_returns_iff:
  "(\<exists>score err. validate_fit_in L shreds_in transl shreds_out = Inr (score, err))
     \<longleftrightarrow> length shreds_out \<noteq> length shreds_in
          \<or> ((\<forall>kv \<in> set shreds_out. int_of_str L (fst kv) \<noteq> None) \<and> values_are_str shreds_out)"
proof (cases "length shreds_in \<noteq> length shreds_out")
  case True
  then show ?thesis by (auto simp: validate_fit_in_def)
next
  case same: False
  show ?thesis
  proof (cases "\<exists>kv \<in> set shreds_out. int_of_str L (fst kv) = None")
    case True
    with same show ?thesis by (auto simp: validate_fit_in_def)
  next
    case keys: False
    let ?vs = "map snd (sort_key (\<lambda>kv. the (int_of_str L (fst kv))) shreds_out)"
    have strs: "(\<exists>r. str_join ?vs = Some r) \<longleftrightarrow> values_are_str shreds_out"
      unfolding str_join_iff by (auto simp: values_are_str_def)
    show ?thesis
    proof (cases "str_join ?vs")
      case None
      with strs have "\<not> values_are_str shreds_out" by simp
      with same keys None show ?thesis by (simp add: validate_fit_in_def)
    next
      case (Some r)
      with strs have "values_are_str shreds_out" by blast
      with same keys Some show ?thesis by (auto simp: validate_fit_in_def Let_def)
    qed
  qed
qed

text \<open>
  Claim C4, as amended. \<open>restruct\<close> collects what each of its attempts appended and picks
  the first candidate of greatest score. With no candidate it returns Fail and the tree
  as it was. With a candidate whose keys all index the group and whose values are all
  strings (the group being in the tree), it carries out the substitutions of the candidate
  in the order of its items, so that each text leaf holds the value last written to it or
  else what it held, and it returns Success exactly when the score of the candidate is 1.0
  and Compromise otherwise. With a candidate that has a key which does not index the
  group or a value which is not a string, it raises \<open>ValueError\<close>, \<open>IndexError\<close> or
  \<open>AttributeError\<close> and returns no status. The similarity of the library never exceeds 1.
\<close>

theorem restruct_selects_and_applies:
  assumes ratio: "\<forall>a b. difflib_ratio L a b \<le> 1"
    and loop: "restruct_loop L chat (shreds_in_of grp) transl 0 [] = (cands, calls)"
  shows "cands = concat (map (\<lambda>n. snd (restruct_try L (chat n) (shreds_in_of grp) transl []))
                          [0..<calls])
    \<and> (cands = [] \<longrightarrow> restruct L chat tree grp ori transl = (Inr Fail, tree, calls))
    \<and> (cands \<noteq> [] \<longrightarrow>
         (\<exists>j < length cands. py_max fst cands = cands ! j
            \<and> (\<forall>c \<in> set cands. fst c \<le> fst (cands ! j))
            \<and> (\<forall>i < j. fst (cands ! i) < fst (cands ! j))))
    \<and> (cands \<noteq> [] \<and> group_in_tree tree grp
         \<and> keys_index_group L grp (snd (py_max fst cands))
         \<and> values_are_str (snd (py_max fst cands)) \<longrightarrow>
         (\<exists>tree'. restruct L chat tree grp ori transl
              = (Inr (if fst (py_max fst cands) = 1 then Success else Compromise), tree', calls)
            \<and> (\<forall>q. is_text_at q tree \<longrightarrow>
                  node_at q tree' =
                    (case map_of (rev (substitutions L grp (snd (py_max fst cands)))) q of
                       None \<Rightarrow> node_at q tree
                     | Some v \<Rightarrow> Some (NavigableString Plain v)))))
    \<and> (cands \<noteq> [] \<and> group_in_tree tree grp
         \<and> \<not> (keys_index_group L grp (snd (py_max fst cands))
               \<and> values_are_str (snd (py_max fst cands))) \<longrightarrow>
         (\<exists>e tree'. restruct L chat tree grp ori transl = (Inl e, tree', calls)
            \<and> e \<in> {ValueError, IndexError, AttributeError}))"
proof -
  have collected: "cands = concat (map (\<lambda>n. snd (restruct_try L (chat n) (shreds_in_of grp) transl []))
                          [0..<calls])"
    using restruct_loop_result [OF loop] by simp
  have none: "restruct L chat tree grp ori transl = (Inr Fail, tree, calls)" if "cands = []"
    using that restruct_unfold [OF loop, of tree ori] by simp
  have first_max: "\<exists>j < length cands. py_max fst cands = cands ! j
            \<and> (\<forall>c \<in> set cands. fst c \<le> fst (cands ! j))
            \<and> (\<forall>i < j. fst (cands ! i) < fst (cands ! j))" if "cands \<noteq> []"
    using that by (rule py_max_first_max)
  have applied: "\<exists>tree'. restruct L chat tree grp ori transl
              = (Inr (if fst (py_max fst cands) = 1 then Success else Compromise), tree', calls)
            \<and> (\<forall>q. is_text_at q tree \<longrightarrow>
                  node_at q tree' =
                    (case map_of (rev (substitutions L grp (snd (py_max fst cands)))) q of
                       None \<Rightarrow> node_at q tree
                     | Some v \<Rightarrow> Some (NavigableString Plain v)))"
    if ne: "cands \<noteq> []" and fits: "group_in_tree tree grp"
      and keys: "keys_index_group L grp (snd (py_max fst cands))"
      and strs: "values_are_str (snd (py_max fst cands))"
  proof -
    from first_max [OF ne] have "py_max fst cands \<in> set cands"
      by (auto simp: in_set_conv_nth)
    then have le: "fst (py_max fst cands) \<le> 1"
      by (rule restruct_loop_scores [OF ratio loop])
    from apply_shreds_substitutes [OF fits keys strs] obtain tree' where
      a: "apply_shreds L grp (snd (py_max fst cands)) tree = (None, tree')"
      and s: "\<forall>q. is_text_at q tree \<longrightarrow>
                  node_at q tree' =
                    (case map_of (rev (substitutions L grp (snd (py_max fst cands)))) q of
                       None \<Rightarrow> node_at q tree
                     | Some v \<Rightarrow> Some (NavigableString Plain v))"
      by blast
    have "restruct L chat tree grp ori transl
              = (Inr (if fst (py_max fst cands) = 1 then Success else Compromise), tree', calls)"
      using restruct_unfold [OF loop, of tree ori] ne a le by auto
    with s show ?thesis by blast
  qed
  have raised: "\<exists>e tree'. restruct L chat tree grp ori transl = (Inl e, tree', calls)
            \<and> e \<in> {ValueError, IndexError, AttributeError}"
    if ne: "cands \<noteq> []" and fits: "group_in_tree tree grp"
      and bad: "\<not> (keys_index_group L grp (snd (py_max fst cands))
               \<and> values_are_str (snd (py_max fst cands)))"
  proof -
    from fits have lens: "length (cids grp) = group_len grp"
      by (simp add: group_in_tree_def)
    from bad apply_shreds_returns_keys [OF _ lens]
    have "\<forall>tree'. apply_shreds L grp (snd (py_max fst cands)) tree \<noteq> (None, tree')"
      by blast
    with restruct_raises_iff [OF loop ne, of tree ori] show ?thesis
      by blast
  qed
  from collected none first_max applied raised show ?thesis by blast
qed

text \<open>
  Claim C9, as amended. For a group that reaches \<open>restruct\<close> (its text does not match the
  translation and it does not have exactly one shred), the status is Fail exactly when
  none of the eleven attempts appends a candidate; the tree is then unmodified, after
  eleven chat calls. When attempts append candidates but no candidate matches the
  translation (none has the score 1.0), all eleven attempts are made and the status is
  neither Fail nor Success: for a group in the tree, the first candidate of greatest score
  is applied and the status is Compromise if its keys all index the group and its values
  are all strings, and otherwise \<open>ValueError\<close>, \<open>IndexError\<close> or \<open>AttributeError\<close> is
  raised. The similarity of the library never exceeds 1.
\<close>

theorem group_fit_in_fail_iff_no_candidate:
  assumes "match_score L (group_str grp) transl \<noteq> 1" and "group_len grp \<noteq> 1"
    and loop: "restruct_loop L chat (shreds_in_of grp) transl 0 [] = (cands, calls)"
  shows "(fst (group_fit_in L chat tree grp ori transl) = Inr Fail
           \<longleftrightarrow> (\<forall>n \<le> max_retry. snd (restruct_try L (chat n) (shreds_in_of grp) transl []) = []))
      \<and> (fst (group_fit_in L chat tree grp ori transl) = Inr Fail
           \<longrightarrow> group_fit_in L chat tree grp ori transl = (Inr Fail, tree, max_retry + 1))
      \<and> (cands \<noteq> [] \<and> (\<forall>c \<in> set cands. fst c \<noteq> 1) \<and> (\<forall>a b. difflib_ratio L a b \<le> 1)
           \<and> group_in_tree tree grp \<longrightarrow>
           calls = max_retry + 1
           \<and> (if keys_index_group L grp (snd (py_max fst cands))
                  \<and> values_are_str (snd (py_max fst cands))
               then \<exists>tree'. group_fit_in L chat tree grp ori transl
                        = (Inr Compromise, tree', max_retry + 1)
                      \<and> (\<forall>q. is_text_at q tree \<longrightarrow>
                            node_at q tree' =
                              (case map_of (rev (substitutions L grp (snd (py_max fst cands)))) q of
                                 None \<Rightarrow> node_at q tree
                               | Some v \<Rightarrow> Some (NavigableString Plain v)))
               else \<exists>e tree'. group_fit_in L chat tree grp ori transl
                        = (Inl e, tree', max_retry + 1)
                      \<and> e \<in> {ValueError, IndexError, AttributeError}))"
proof -
  have g: "group_fit_in L chat tree grp ori transl = restruct L chat tree grp ori transl"
    using assms(1,2) by (simp add: group_fit_in_def)
  have fail: "fst (restruct L chat tree grp ori transl) = Inr Fail \<longleftrightarrow> cands = []"
  proof (cases "apply_shreds L grp (snd (py_max fst cands)) tree")
    case (Pair eo tree1)
    then show ?thesis
      using restruct_unfold [OF loop, of tree ori] by (cases eo) auto
  qed
  have whole: "restruct L chat tree grp ori transl = (Inr Fail, tree, max_retry + 1)"
    if "cands = []"
    using that restruct_unfold [OF loop, of tree ori] restruct_no_candidates(2) [OF loop]
    by simp
  have first: "fst (group_fit_in L chat tree grp ori transl) = Inr Fail
           \<longleftrightarrow> (\<forall>n \<le> max_retry. snd (restruct_try L (chat n) (shreds_in_of grp) transl []) = [])"
    using g fail restruct_no_candidates(1) [OF loop] by simp
  have second: "fst (group_fit_in L chat tree grp ori transl) = Inr Fail
           \<longrightarrow> group_fit_in L chat tree grp ori transl = (Inr Fail, tree, max_retry + 1)"
    using g fail whole by simp
  have third: "calls = max_retry + 1
           \<and> (if keys_index_group L grp (snd (py_max fst cands))
                  \<and> values_are_str (snd (py_max fst cands))
               then \<exists>tree'. group_fit_in L chat tree grp ori transl
                        = (Inr Compromise, tree', max_retry + 1)
                      \<and> (\<forall>q. is_text_at q tree \<longrightarrow>
                            node_at q tree' =
                              (case map_of (rev (substitutions L grp (snd (py_max fst cands)))) q of
                                 None \<Rightarrow> node_at q tree
                               | Some v \<Rightarrow> Some (NavigableString Plain v)))
               else \<exists>e tree'. group_fit_in L chat tree grp ori transl
                        = (Inl e, tree', max_retry + 1)
                      \<and> e \<in> {ValueError, IndexError, AttributeError})"
    if ne: "cands \<noteq> []" and no_match: "\<forall>c \<in> set cands. fst c \<noteq> 1"
      and ratio: "\<forall>a b. difflib_ratio L a b \<le> 1" and fits: "group_in_tree tree grp"
  proof -
    from restruct_loop_result [OF loop]
    have lt: "0 < calls" and up: "calls \<le> max_retry + 1"
      and c: "cands = concat (map (\<lambda>n. snd (restruct_try L (chat n) (shreds_in_of grp) transl []))
                          [0..<calls])"
      and b: "calls \<le> max_retry \<longrightarrow>
                fst (restruct_try L (chat (calls - 1)) (shreds_in_of grp) transl [])"
      by auto
    have all: "calls = max_retry + 1"
    proof (rule ccontr)
      assume "calls \<noteq> max_retry + 1"
      with up b have "fst (restruct_try L (chat (calls - 1)) (shreds_in_of grp) transl [])"
        by simp
      from restruct_try_break_score [OF this] obtain shreds_out where
        "snd (restruct_try L (chat (calls - 1)) (shreds_in_of grp) transl []) = [(1, shreds_out)]"
        by blast
      then have "(1, shreds_out)
          \<in> set (snd (restruct_try L (chat (calls - 1)) (shreds_in_of grp) transl []))"
        by simp
      moreover from lt have "calls - 1 < calls"
        by simp
      ultimately have "\<exists>n < calls. (1, shreds_out)
          \<in> set (snd (restruct_try L (chat n) (shreds_in_of grp) transl []))"
        by blast
      then have "(1, shreds_out) \<in> set cands"
        unfolding c by auto
      with no_match show False by force
    qed
    from py_max_first_max [OF ne, of fst] have mem: "py_max fst cands \<in> set cands"
      by (auto simp: in_set_conv_nth)
    from restruct_loop_scores [OF ratio loop mem] no_match mem
    have below: "fst (py_max fst cands) < 1"
      by force
    show ?thesis
    proof (cases "keys_index_group L grp (snd (py_max fst cands))
                  \<and> values_are_str (snd (py_max fst cands))")
      case True
      then have keys: "keys_index_group L grp (snd (py_max fst cands))"
        and strs: "values_are_str (snd (py_max fst cands))"
        by simp_all
      from apply_shreds_substitutes [OF fits keys strs] obtain tree' where
        a: "apply_shreds L grp (snd (py_max fst cands)) tree = (None, tree')"
        and s: "\<forall>q. is_text_at q tree \<longrightarrow>
                  node_at q tree' =
                    (case map_of (rev (substitutions L grp (snd (py_max fst cands)))) q of
                       None \<Rightarrow> node_at q tree
                     | Some v \<Rightarrow> Some (NavigableString Plain v))"
        by blast
      have "restruct L chat tree grp ori transl = (Inr Compromise, tree', max_retry + 1)"
        using restruct_unfold [OF loop, of tree ori] ne a below all by simp
      with g s True all show ?thesis by auto
    next
      case False
      from fits have lens: "length (cids grp) = group_len grp"
        by (simp add: group_in_tree_def)
      from False apply_shreds_returns_keys [OF _ lens]
      have "\<forall>tree'. apply_shreds L grp (snd (py_max fst cands)) tree \<noteq> (None, tree')"
        by blast
      with restruct_raises_iff [OF loop ne, of tree ori] g False all show ?thesis
        by auto
    qed
  qed
  from first second third show ?thesis by blast
qed

text \<open>
  Claim C10, as amended. The candidates are exactly what the attempts made leave: an
  attempt whose reply decodes to a non-empty object on which \<open>validate_fit_in\<close> returns is
  kept whatever its score, and every candidate comes from such an attempt.
  \<open>validate_fit_in\<close> returns exactly when the number of shreds differs from the group's
  (the score is then 0) or every key is the text of an integer and every value is a
  string; so an empty object is not kept, and an object with as many shreds as the group
  is kept only with such keys and values. The apply loop has no check of its own:
  \<open>restruct\<close> returns a status with a candidate only if every key of the selected
  candidate is the text of an integer \<open>i\<close> with \<open>-len(group) \<le> i < len(group)\<close> and every
  value is a string, and for a group that is in the tree it returns a status exactly
  then.
\<close>

theorem restruct_candidates_and_keys:
  assumes loop: "restruct_loop L chat (shreds_in_of grp) transl 0 [] = (cands, calls)"
    and lens: "length (cids grp) = group_len grp"
  shows "(\<forall>n < calls. \<forall>response shreds_out score err.
            chat n = Return response \<and> as_json_obj L response = Some shreds_out
            \<and> shreds_out \<noteq> []
            \<and> validate_fit_in L (shreds_in_of grp) transl shreds_out = Inr (score, err)
            \<longrightarrow> (score, shreds_out) \<in> set cands)
    \<and> (\<forall>c \<in> set cands. \<exists>n < calls. \<exists>response err.
            chat n = Return response \<and> as_json_obj L response = Some (snd c)
            \<and> snd c \<noteq> []
            \<and> validate_fit_in L (shreds_in_of grp) transl (snd c) = Inr (fst c, err))
    \<and> (\<forall>shreds_out.
          (\<exists>score err. validate_fit_in L (shreds_in_of grp) transl shreds_out = Inr (score, err))
            \<longleftrightarrow> length shreds_out \<noteq> group_len grp
                 \<or> ((\<forall>kv \<in> set shreds_out. int_of_str L (fst kv) \<noteq> None)
                     \<and> values_are_str shreds_out))
    \<and> (\<forall>shreds_out. length shreds_out \<noteq> group_len grp \<longrightarrow>
           validate_fit_in L (shreds_in_of grp) transl shreds_out
             = Inr (0, LengthNotMatch (group_len grp) (length shreds_out)))
    \<and> (\<forall>c \<in> set cands. snd c \<noteq> []
          \<and> (length (snd c) = group_len grp \<longrightarrow>
               (\<forall>kv \<in> set (snd c). int_of_str L (fst kv) \<noteq> None) \<and> values_are_str (snd c)))
    \<and> (cands \<noteq> [] \<and> (\<exists>st tree'. restruct L chat tree grp ori transl = (Inr st, tree', calls))
          \<longrightarrow> keys_index_group L grp (snd (py_max fst cands))
               \<and> values_are_str (snd (py_max fst cands)))
    \<and> (cands \<noteq> [] \<and> group_in_tree tree grp \<longrightarrow>
          ((\<exists>st tree'. restruct L chat tree grp ori transl = (Inr st, tree', calls))
             \<longleftrightarrow> keys_index_group L grp (snd (py_max fst cands))
                  \<and> values_are_str (snd (py_max fst cands))))"
proof -
  have collected: "cands = concat (map (\<lambda>n. snd (restruct_try L (chat n) (shreds_in_of grp) transl []))
                          [0..<calls])"
    using restruct_loop_result [OF loop] by simp
  have kept: "(score, shreds_out) \<in> set cands"
    if n: "n < calls" and r: "chat n = Return response"
      and d: "as_json_obj L response = Some shreds_out" and ne: "shreds_out \<noteq> []"
      and v: "validate_fit_in L (shreds_in_of grp) transl shreds_out = Inr (score, err)"
    for n response shreds_out score err
  proof -
    from r d ne v
    have "snd (restruct_try L (chat n) (shreds_in_of grp) transl []) = [(score, shreds_out)]"
      by (simp add: restruct_try_def)
    with collected n show ?thesis by (force simp: Bex_def)
  qed
  have origin: "\<exists>n < calls. \<exists>response err.
            chat n = Return response \<and> as_json_obj L response = Some (snd c)
            \<and> snd c \<noteq> []
            \<and> validate_fit_in L (shreds_in_of grp) transl (snd c) = Inr (fst c, err)"
    if "c \<in> set cands" for c
  proof -
    from that collected obtain n where n: "n < calls"
      and c: "c \<in> set (snd (restruct_try L (chat n) (shreds_in_of grp) transl []))"
      by auto
    from restruct_try_member [OF c] n show ?thesis by blast
  qed
  have returns: "(\<exists>score err. validate_fit_in L (shreds_in_of grp) transl shreds_out = Inr (score, err))
            \<longleftrightarrow> length shreds_out \<noteq> group_len grp
                 \<or> ((\<forall>kv \<in> set shreds_out. int_of_str L (fst kv) \<noteq> None)
                     \<and> values_are_str shreds_out)" for shreds_out
    using validate_fit_in_returns_iff [of L "shreds_in_of grp" transl shreds_out]
    by (simp only: length_shreds_in_of)
  have mismatch: "validate_fit_in L (shreds_in_of grp) transl shreds_out
             = Inr (0, LengthNotMatch (group_len grp) (length shreds_out))"
    if "length shreds_out \<noteq> group_len grp" for shreds_out
    using that by (auto simp: validate_fit_in_def length_shreds_in_of)
  have not_kept: "snd c \<noteq> []
          \<and> (length (snd c) = group_len grp \<longrightarrow>
               (\<forall>kv \<in> set (snd c). int_of_str L (fst kv) \<noteq> None) \<and> values_are_str (snd c))"
    if "c \<in> set cands" for c
  proof -
    from origin [OF that] obtain err where ne: "snd c \<noteq> []"
      and v: "validate_fit_in L (shreds_in_of grp) transl (snd c) = Inr (fst c, err)"
      by blast
    from v returns [of "snd c"] ne show ?thesis by blast
  qed
  have only_if: "keys_index_group L grp (snd (py_max fst cands))
               \<and> values_are_str (snd (py_max fst cands))"
    if ne: "cands \<noteq> []" and ret: "\<exists>st tree'. restruct L chat tree grp ori transl = (Inr st, tree', calls)"
  proof -
    from ret restruct_returns_iff [OF loop ne, of tree ori] obtain tree' where
      "apply_shreds L grp (snd (py_max fst cands)) tree = (None, tree')"
      by blast
    then show ?thesis using lens by (rule apply_shreds_returns_keys)
  qed
  have "if": "\<exists>st tree'. restruct L chat tree grp ori transl = (Inr st, tree', calls)"
    if ne: "cands \<noteq> []" and fits: "group_in_tree tree grp"
      and keys: "keys_index_group L grp (snd (py_max fst cands))"
      and strs: "values_are_str (snd (py_max fst cands))"
  proof -
    from apply_shreds_substitutes [OF fits keys strs] obtain tree' where
      "apply_shreds L grp (snd (py_max fst cands)) tree = (None, tree')"
      by blast
    with restruct_returns_iff [OF loop ne, of tree ori] show ?thesis
      by blast
  qed
  have c1: "\<forall>n < calls. \<forall>response shreds_out score err.
            chat n = Return response \<and> as_json_obj L response = Some shreds_out
            \<and> shreds_out \<noteq> []
            \<and> validate_fit_in L (shreds_in_of grp) transl shreds_out = Inr (score, err)
            \<longrightarrow> (score, shreds_out) \<in> set cands"
    using kept by blast
  have c2: "\<forall>c \<in> set cands. \<exists>n < calls. \<exists>response err.
            chat n = Return response \<and> as_json_obj L response = Some (snd c)
            \<and> snd c \<noteq> []
            \<and> validate_fit_in L (shreds_in_of grp) transl (snd c) = Inr (fst c, err)"
    using origin by blast
  have c5: "\<forall>c \<in> set cands. snd c \<noteq> []
          \<and> (length (snd c) = group_len grp \<longrightarrow>
               (\<forall>kv \<in> set (snd c). int_of_str L (fst kv) \<noteq> None) \<and> values_are_str (snd c))"
    using not_kept by blast
  have c7: "cands \<noteq> [] \<and> group_in_tree tree grp \<longrightarrow>
          ((\<exists>st tree'. restruct L chat tree grp ori transl = (Inr st, tree', calls))
             \<longleftrightarrow> keys_index_group L grp (snd (py_max fst cands))
                  \<and> values_are_str (snd (py_max fst cands)))"
    using only_if "if" by blast
  from c1 c2 returns mismatch c5 only_if c7 show ?thesis
    by (intro conjI allI impI) blast+
qed

subsection \<open>The examples, evaluated\<close>

lemma example_shreds_in:
  "shreds_in_of example_group = [(py ''0'', py ''ab''), (py ''1'', py ''cd'')]"
  by (simp add: shreds_in_of_def example_group_def enumerate_eq_zip str_nat.simps py_def
      upt_conv_Cons)

lemma example_ratio: "\<forall>a b. difflib_ratio example_lib a b \<le> 1"
  by (simp add: example_lib_def)

lemma example_decode_01:
  "as_json_obj example_lib (py ''{\"0\": \"pq\", \"1\": \"rs\"}'')
     = Some [(py ''0'', JStr (py ''pq'')), (py ''1'', JStr (py ''rs''))]"
  by (simp add: as_json_obj_def first_brace_match_def example_lib_def py_def is_space_def)

lemma example_decode_neg:
  "as_json_obj example_lib (py ''{\"0\": \"pq\", \"-1\": \"rs\"}'')
     = Some [(py ''0'', JStr (py ''pq'')), (py ''-1'', JStr (py ''rs''))]"
  by (simp add: as_json_obj_def first_brace_match_def example_lib_def py_def is_space_def)

lemma example_decode_23:
  "as_json_obj example_lib (py ''{\"2\": \"pq\", \"3\": \"rs\"}'')
     = Some [(py ''2'', JStr (py ''pq'')), (py ''3'', JStr (py ''rs''))]"
  by (simp add: as_json_obj_def first_brace_match_def example_lib_def py_def is_space_def)

lemma example_decode_null:
  "as_json_obj example_lib (py ''{\"0\": null}'') = Some [(py ''0'', JNull)]"
  by (simp add: as_json_obj_def first_brace_match_def example_lib_def py_def is_space_def)

lemma example_decode_none: "as_json_obj example_lib (py ''Sorry, I cannot.'') = None"
  by (simp add: as_json_obj_def first_brace_match_def example_lib_def py_def is_space_def)

lemma example_try_none:
  "restruct_try example_lib (Return (py ''Sorry, I cannot.'')) shreds_in transl [] = (False, [])"
  by (simp add: restruct_try_def example_decode_none)

lemma example_try_01_other:
  "restruct_try example_lib (Return (py ''{\"0\": \"pq\", \"1\": \"rs\"}''))
     (shreds_in_of example_group) (py ''wxyz'') []
   = (False, [(0, [(py ''0'', JStr (py ''pq'')), (py ''1'', JStr (py ''rs''))])])"
  by (simp add: restruct_try_def example_decode_01 example_shreds_in validate_fit_in_def
      match_score_def compact_tab_def)
     (simp add: example_lib_def py_def)

lemma example_try_01_same:
  "restruct_try example_lib (Return (py ''{\"0\": \"pq\", \"1\": \"rs\"}''))
     (shreds_in_of example_group) (py ''pqrs'') []
   = (True, [(1, [(py ''0'', JStr (py ''pq'')), (py ''1'', JStr (py ''rs''))])])"
  by (simp add: restruct_try_def example_decode_01 example_shreds_in validate_fit_in_def
      match_score_def compact_tab_def)
     (simp add: example_lib_def py_def)

lemma example_try_neg:
  "restruct_try example_lib (Return (py ''{\"0\": \"pq\", \"-1\": \"rs\"}''))
     (shreds_in_of example_group) (py ''rspq'') []
   = (True, [(1, [(py ''0'', JStr (py ''pq'')), (py ''-1'', JStr (py ''rs''))])])"
  by (simp add: restruct_try_def example_decode_neg example_shreds_in validate_fit_in_def
      match_score_def compact_tab_def)
     (simp add: example_lib_def py_def)

lemma example_try_23:
  "restruct_try example_lib (Return (py ''{\"2\": \"pq\", \"3\": \"rs\"}''))
     (shreds_in_of example_group) (py ''pqrs'') []
   = (True, [(1, [(py ''2'', JStr (py ''pq'')), (py ''3'', JStr (py ''rs''))])])"
  by (simp add: restruct_try_def example_decode_23 example_shreds_in validate_fit_in_def
      match_score_def compact_tab_def)
     (simp add: example_lib_def py_def)

lemma example_try_23_other:
  "restruct_try example_lib (Return (py ''{\"2\": \"pq\", \"3\": \"rs\"}''))
     (shreds_in_of example_group) (py ''wxyz'') []
   = (False, [(0, [(py ''2'', JStr (py ''pq'')), (py ''3'', JStr (py ''rs''))])])"
  by (simp add: restruct_try_def example_decode_23 example_shreds_in validate_fit_in_def
      match_score_def compact_tab_def)
     (simp add: example_lib_def py_def)

lemma example_try_null:
  "restruct_try example_lib (Return (py ''{\"0\": null}''))
     (shreds_in_of example_group) transl []
   = (False, [(0, [(py ''0'', JNull)])])"
  by (simp add: restruct_try_def example_decode_null example_shreds_in validate_fit_in_def)

lemma example_group_in_tree: "group_in_tree example_tree example_group"
  by code_simp

lemma example_score_abcd:
  "match_score example_lib (group_str example_group) (py ''wxyz'') \<noteq> 1"
  "match_score example_lib (group_str example_group) (py ''pqrs'') \<noteq> 1"
  "match_score example_lib (group_str example_group) (py ''rspq'') \<noteq> 1"
  by (simp_all add: match_score_def example_lib_def group_str_def example_group_def py_def
      compact_tab_def)

lemma example_apply_01:
  "apply_shreds example_lib example_group
     [(py ''0'', JStr (py ''pq'')), (py ''1'', JStr (py ''rs''))] example_tree
   = (None, Tag (py ''p'') [NavigableString Plain (py ''pq''),
                          Tag (py ''b'') [NavigableString Plain (py ''rs'')]])"
  by (simp add: example_lib_def example_group_def example_tree_def py_index_def py_def
      replace_with_value_def)

lemma example_apply_neg:
  "apply_shreds example_lib example_group
     [(py ''0'', JStr (py ''pq'')), (py ''-1'', JStr (py ''rs''))] example_tree
   = (None, Tag (py ''p'') [NavigableString Plain (py ''pq''),
                          Tag (py ''b'') [NavigableString Plain (py ''rs'')]])"
  by (simp add: example_lib_def example_group_def example_tree_def py_index_def py_def
      replace_with_value_def)

lemma example_apply_23:
  "apply_shreds example_lib example_group
     [(py ''2'', JStr (py ''pq'')), (py ''3'', JStr (py ''rs''))] example_tree
   = (Some IndexError, example_tree)"
  by (simp add: example_lib_def example_group_def py_index_def py_def)

lemma example_apply_null:
  "apply_shreds example_lib example_group [(py ''0'', JNull)] example_tree
   = (Some ValueError, Tag (py ''p'') [Tag (py ''b'') [NavigableString Plain (py ''cd'')]])"
  by (simp add: example_lib_def example_group_def example_tree_def py_index_def py_def
      replace_with_value_def)

lemma example_loop_sorry_then_01:
  "restruct_loop example_lib
     (\<lambda>n. if n = 0 then Return (py ''Sorry, I cannot.'')
          else Return (py ''{\"0\": \"pq\", \"1\": \"rs\"}''))
     (shreds_in_of example_group) (py ''pqrs'') 0 []
   = ([(1, [(py ''0'', JStr (py ''pq'')), (py ''1'', JStr (py ''rs''))])], 2)"
  by (simp add: restruct_loop_unfold example_try_none example_try_01_same max_retry_def)

lemma example_loop_sorry:
  "restruct_loop example_lib (\<lambda>n. Return (py ''Sorry, I cannot.'')) shreds_in transl 0 []
   = ([], 11)"
  by (simp add: restruct_loop_unfold example_try_none max_retry_def)

lemma example_loop_01_other:
  "restruct_loop example_lib (\<lambda>n. Return (py ''{\"0\": \"pq\", \"1\": \"rs\"}''))
     (shreds_in_of example_group) (py ''wxyz'') 0 []
   = (replicate 11 (0, [(py ''0'', JStr (py ''pq'')), (py ''1'', JStr (py ''rs''))]), 11)"
  by (simp add: restruct_loop_unfold example_try_01_other max_retry_def eval_nat_numeral)

lemma example_loop_23_other:
  "restruct_loop example_lib (\<lambda>n. Return (py ''{\"2\": \"pq\", \"3\": \"rs\"}''))
     (shreds_in_of example_group) (py ''wxyz'') 0 []
   = (replicate 11 (0, [(py ''2'', JStr (py ''pq'')), (py ''3'', JStr (py ''rs''))]), 11)"
  by (simp add: restruct_loop_unfold example_try_23_other max_retry_def eval_nat_numeral)

lemma example_loop_null:
  "restruct_loop example_lib (\<lambda>n. Return (py ''{\"0\": null}''))
     (shreds_in_of example_group) transl 0 []
   = (replicate 11 (0, [(py ''0'', JNull)]), 11)"
  by (simp add: restruct_loop_unfold example_try_null max_retry_def eval_nat_numeral)

lemma example_loop_neg:
  "restruct_loop example_lib (\<lambda>n. Return (py ''{\"0\": \"pq\", \"-1\": \"rs\"}''))
     (shreds_in_of example_group) (py ''rspq'') 0 []
   = ([(1, [(py ''0'', JStr (py ''pq'')), (py ''-1'', JStr (py ''rs''))])], 1)"
  by (simp add: restruct_loop_unfold example_try_neg max_retry_def)

lemma example_loop_23:
  "restruct_loop example_lib (\<lambda>n. Return (py ''{\"2\": \"pq\", \"3\": \"rs\"}''))
     (shreds_in_of example_group) (py ''pqrs'') 0 []
   = ([(1, [(py ''2'', JStr (py ''pq'')), (py ''3'', JStr (py ''rs''))])], 1)"
  by (simp add: restruct_loop_unfold example_try_23 max_retry_def)

lemma example_best:
  "py_max fst (replicate 11 (0::real, so)) = (0, so)"
  "py_max fst [(1::real, so)] = (1, so)"
  by (simp_all add: py_max_def eval_nat_numeral)

lemma example_keys_01:
  "keys_index_group example_lib example_group
     [(py ''0'', JStr (py ''pq'')), (py ''1'', JStr (py ''rs''))]"
  "values_are_str [(py ''0'', JStr (py ''pq'')), (py ''1'', JStr (py ''rs''))]"
  by (simp_all add: keys_index_group_def values_are_str_def example_lib_def group_len_def
      example_group_def py_def)

text \<open>
  Claim C4 as stated fails. The first reply \<open>{"2": "pq", "3": "rs"}\<close> to a group of two
  shreds joins to the translation \<open>pqrs\<close>, so it is a candidate of score 1.0 and the loop
  stops; the apply loop then reads \<open>group.cids[2]\<close> and \<open>restruct\<close> raises \<open>IndexError\<close>
  where the claim has it return Success.
\<close>

theorem restruct_raises_with_candidate:
  "fst (restruct_loop example_lib (\<lambda>n. Return (py ''{\"2\": \"pq\", \"3\": \"rs\"}''))
          (shreds_in_of example_group) (py ''pqrs'') 0 [])
     = [(1, [(py ''2'', JStr (py ''pq'')), (py ''3'', JStr (py ''rs''))])]
   \<and> restruct example_lib (\<lambda>n. Return (py ''{\"2\": \"pq\", \"3\": \"rs\"}''))
        example_tree example_group (py ''abcd'') (py ''pqrs'')
     = (Inl IndexError, example_tree, 1)"
proof -
  have "restruct example_lib (\<lambda>n. Return (py ''{\"2\": \"pq\", \"3\": \"rs\"}''))
        example_tree example_group (py ''abcd'') (py ''pqrs'')
     = (Inl IndexError, example_tree, 1)"
    unfolding restruct_unfold [OF example_loop_23] example_best snd_conv fst_conv example_apply_23
    by simp
  then show ?thesis by (simp add: example_loop_23)
qed

text \<open>
  The amended claim on three runs: a reply that cannot be decoded followed by a reply that
  fits gives Success and the two leaves replaced; replies that can never be decoded give
  Fail and the tree as it was; eleven replies \<open>{"0": null}\<close> leave candidates of one shred
  and score 0, whose value is no string, and \<open>restruct\<close> raises \<open>ValueError\<close>.
\<close>

theorem restruct_selects_and_applies_witness:
  "restruct example_lib
     (\<lambda>n. if n = 0 then Return (py ''Sorry, I cannot.'')
          else Return (py ''{\"0\": \"pq\", \"1\": \"rs\"}''))
     example_tree example_group (py ''abcd'') (py ''pqrs'')
   = (Inr Success,
      Tag (py ''p'') [NavigableString Plain (py ''pq''),
                     Tag (py ''b'') [NavigableString Plain (py ''rs'')]], 2)
   \<and> restruct example_lib (\<lambda>n. Return (py ''Sorry, I cannot.''))
       example_tree example_group (py ''abcd'') (py ''pqrs'')
     = (Inr Fail, example_tree, 11)
   \<and> fst (restruct example_lib (\<lambda>n. Return (py ''{\"0\": null}''))
            example_tree example_group (py ''abcd'') (py ''pqrs''))
     = Inl ValueError"
proof -
  let ?chat = "\<lambda>n::nat. if n = 0 then Return (py ''Sorry, I cannot.'')
          else (Return (py ''{\"0\": \"pq\", \"1\": \"rs\"}'') :: (exc_class, pystr) outcome)"
  let ?so = "[(py ''0'', JStr (py ''pq'')), (py ''1'', JStr (py ''rs''))]"
  have keys: "keys_index_group example_lib example_group (snd (py_max fst [(1::real, ?so)]))"
    and strs: "values_are_str (snd (py_max fst [(1::real, ?so)]))"
    unfolding example_best snd_conv by (rule example_keys_01)+
  from restruct_selects_and_applies
    [OF example_ratio example_loop_sorry_then_01, of example_tree "py ''abcd''"]
    example_group_in_tree keys strs
  obtain tree' where
    r: "restruct example_lib ?chat example_tree example_group (py ''abcd'') (py ''pqrs'')
        = (Inr (if fst (py_max fst [(1::real, ?so)]) = 1 then Success else Compromise), tree', 2)"
    by blast
  have a: "restruct example_lib ?chat example_tree example_group (py ''abcd'') (py ''pqrs'')
        = (Inr Success,
           Tag (py ''p'') [NavigableString Plain (py ''pq''),
                          Tag (py ''b'') [NavigableString Plain (py ''rs'')]], 2)"
    using r
    unfolding restruct_unfold [OF example_loop_sorry_then_01] example_best snd_conv fst_conv
      example_apply_01
    by simp
  from restruct_selects_and_applies
    [OF example_ratio example_loop_sorry, of example_group "py ''pqrs''" example_tree "py ''abcd''"]
  have b: "restruct example_lib (\<lambda>n. Return (py ''Sorry, I cannot.''))
       example_tree example_group (py ''abcd'') (py ''pqrs'')
     = (Inr Fail, example_tree, 11)"
    by blast
  have bad: "\<not> (keys_index_group example_lib example_group
                  (snd (py_max fst (replicate 11 (0::real, [(py ''0'', JNull)]))))
               \<and> values_are_str (snd (py_max fst (replicate 11 (0::real, [(py ''0'', JNull)])))))"
    unfolding example_best snd_conv by (simp add: values_are_str_def)
  have ne: "replicate 11 (0::real, [(py ''0'', JNull)]) \<noteq> []"
    by simp
  from restruct_selects_and_applies
    [OF example_ratio example_loop_null, of "py ''pqrs''" example_tree "py ''abcd''"]
    ne example_group_in_tree bad
  obtain e tree' where
    "restruct example_lib (\<lambda>n. Return (py ''{\"0\": null}''))
       example_tree example_group (py ''abcd'') (py ''pqrs'') = (Inl e, tree', 11)"
    by blast
  then have c: "fst (restruct example_lib (\<lambda>n. Return (py ''{\"0\": null}''))
            example_tree example_group (py ''abcd'') (py ''pqrs''))
     = Inl ValueError"
    unfolding restruct_unfold [OF example_loop_null] example_best snd_conv fst_conv
      example_apply_null
    by simp
  from a b c show ?thesis by simp
qed

text \<open>
  Claim C9 as stated fails. Every one of the eleven attempts returns
  \<open>{"0": "pq", "1": "rs"}\<close>, which does not join to the translation \<open>wxyz\<close>: no attempt
  ever matches, yet the status is Compromise and both leaves of the tree are replaced.
\<close>

theorem group_fit_in_compromise_without_match:
  "group_fit_in example_lib (\<lambda>n. Return (py ''{\"0\": \"pq\", \"1\": \"rs\"}''))
     example_tree example_group (py ''abcd'') (py ''wxyz'')
   = (Inr Compromise,
      Tag (py ''p'') [NavigableString Plain (py ''pq''),
                     Tag (py ''b'') [NavigableString Plain (py ''rs'')]], 11)"
proof -
  have g: "group_len example_group \<noteq> 1"
    by (simp add: group_len_def example_group_def)
  have "restruct example_lib (\<lambda>n. Return (py ''{\"0\": \"pq\", \"1\": \"rs\"}''))
     example_tree example_group (py ''abcd'') (py ''wxyz'')
   = (Inr Compromise,
      Tag (py ''p'') [NavigableString Plain (py ''pq''),
                     Tag (py ''b'') [NavigableString Plain (py ''rs'')]], 11)"
    unfolding restruct_unfold [OF example_loop_01_other] example_best snd_conv fst_conv
      example_apply_01
    by simp
  with example_score_abcd(1) g show ?thesis
    by (simp add: group_fit_in_def)
qed

text \<open>
  The amended claim on three services. One never answers with an object: Fail, the tree
  as it was, eleven chat calls. One answers \<open>{"2": "pq", "3": "rs"}\<close> eleven times: the
  candidates have score 0, their keys do not index the group of two shreds, and
  \<open>IndexError\<close> is raised with the tree as it was. One answers \<open>{"0": "pq", "1": "rs"}\<close>
  eleven times: a status is returned, which the example above shows to be Compromise.
\<close>

theorem group_fit_in_fail_iff_no_candidate_witness:
  "group_fit_in example_lib (\<lambda>n. Return (py ''Sorry, I cannot.''))
     example_tree example_group (py ''abcd'') (py ''wxyz'')
   = (Inr Fail, example_tree, 11)
   \<and> group_fit_in example_lib (\<lambda>n. Return (py ''{\"2\": \"pq\", \"3\": \"rs\"}''))
       example_tree example_group (py ''abcd'') (py ''wxyz'')
     = (Inl IndexError, example_tree, 11)
   \<and> (\<exists>tree'. group_fit_in example_lib (\<lambda>n. Return (py ''{\"0\": \"pq\", \"1\": \"rs\"}''))
         example_tree example_group (py ''abcd'') (py ''wxyz'')
       = (Inr Compromise, tree', 11))"
proof -
  let ?so = "[(py ''0'', JStr (py ''pq'')), (py ''1'', JStr (py ''rs''))]"
  let ?bad = "[(py ''2'', JStr (py ''pq'')), (py ''3'', JStr (py ''rs''))]"
  have g: "group_len example_group \<noteq> 1"
    by (simp add: group_len_def example_group_def)
  have eleven: "max_retry + 1 = 11"
    by (simp add: max_retry_def)
  from group_fit_in_fail_iff_no_candidate [OF example_score_abcd(1) g example_loop_sorry,
      of example_tree "py ''abcd''"]
  have a: "group_fit_in example_lib (\<lambda>n. Return (py ''Sorry, I cannot.''))
     example_tree example_group (py ''abcd'') (py ''wxyz'')
   = (Inr Fail, example_tree, 11)"
    by (simp add: example_try_none max_retry_def)
  have ne: "replicate 11 (0::real, so) \<noteq> []" for so :: jobj
    by simp
  have low: "\<forall>c \<in> set (replicate 11 (0::real, so)). fst c \<noteq> 1" for so :: jobj
    by simp
  have bad: "\<not> (keys_index_group example_lib example_group
                  (snd (py_max fst (replicate 11 (0::real, ?bad))))
               \<and> values_are_str (snd (py_max fst (replicate 11 (0::real, ?bad)))))"
    unfolding example_best snd_conv
    by (simp add: keys_index_group_def example_lib_def group_len_def example_group_def py_def)
  from group_fit_in_fail_iff_no_candidate [OF example_score_abcd(1) g example_loop_23_other,
      of example_tree "py ''abcd''"]
    ne low example_ratio example_group_in_tree bad
  obtain e tree' where
    "group_fit_in example_lib (\<lambda>n. Return (py ''{\"2\": \"pq\", \"3\": \"rs\"}''))
       example_tree example_group (py ''abcd'') (py ''wxyz'') = (Inl e, tree', max_retry + 1)"
    by (auto split: if_splits)
  then have b: "group_fit_in example_lib (\<lambda>n. Return (py ''{\"2\": \"pq\", \"3\": \"rs\"}''))
       example_tree example_group (py ''abcd'') (py ''wxyz'')
     = (Inl IndexError, example_tree, 11)"
    using example_score_abcd(1) g
    unfolding group_fit_in_def restruct_unfold [OF example_loop_23_other] example_best
      snd_conv fst_conv example_apply_23
    by simp
  have good: "keys_index_group example_lib example_group
                  (snd (py_max fst (replicate 11 (0::real, ?so))))
               \<and> values_are_str (snd (py_max fst (replicate 11 (0::real, ?so))))"
    unfolding example_best snd_conv using example_keys_01 by simp
  from group_fit_in_fail_iff_no_candidate [OF example_score_abcd(1) g example_loop_01_other,
      of example_tree "py ''abcd''"]
    ne low example_ratio example_group_in_tree good
  have c: "\<exists>tree'. group_fit_in example_lib (\<lambda>n. Return (py ''{\"0\": \"pq\", \"1\": \"rs\"}''))
         example_tree example_group (py ''abcd'') (py ''wxyz'')
       = (Inr Compromise, tree', 11)"
    unfolding eleven by (auto split: if_splits)
  from a b c show ?thesis by blast
qed

text \<open>
  Claim C10 as stated fails. The reply \<open>{"0": "pq", "-1": "rs"}\<close> is kept with score 1.0
  (sorted by integer key it joins to the translation \<open>rspq\<close>), and the apply loop writes
  \<open>rs\<close> through \<open>group.cids[-1]\<close>, the last shred: \<open>restruct\<close> returns Success although the
  key \<open>-1\<close> is no integer of \<open>[0, len(group))\<close>.
\<close>

theorem restruct_returns_with_negative_key:
  "restruct example_lib (\<lambda>n. Return (py ''{\"0\": \"pq\", \"-1\": \"rs\"}''))
     example_tree example_group (py ''abcd'') (py ''rspq'')
   = (Inr Success,
      Tag (py ''p'') [NavigableString Plain (py ''pq''),
                     Tag (py ''b'') [NavigableString Plain (py ''rs'')]], 1)
   \<and> int_of_str example_lib (py ''-1'') = Some (- 1)
   \<and> group_len example_group = 2"
proof -
  have "restruct example_lib (\<lambda>n. Return (py ''{\"0\": \"pq\", \"-1\": \"rs\"}''))
     example_tree example_group (py ''abcd'') (py ''rspq'')
   = (Inr Success,
      Tag (py ''p'') [NavigableString Plain (py ''pq''),
                     Tag (py ''b'') [NavigableString Plain (py ''rs'')]], 1)"
    unfolding restruct_unfold [OF example_loop_neg] example_best snd_conv fst_conv
      example_apply_neg
    by simp
  moreover have "int_of_str example_lib (py ''-1'') = Some (- 1)"
    by (simp add: example_lib_def py_def)
  moreover have "group_len example_group = 2"
    by (simp add: group_len_def example_group_def)
  ultimately show ?thesis by simp
qed

text \<open>
  The amended claim on two runs. Each of the eleven replies \<open>{"0": "pq", "1": "rs"}\<close> is
  kept with score 0 although none fits, and \<open>restruct\<close> returns because the keys \<open>0\<close> and
  \<open>1\<close> index the group and the values are strings. Each of the eleven replies
  \<open>{"0": null}\<close>, of one shred for this group of two, is kept with score 0, and \<open>restruct\<close>
  returns no status because the value is no string.
\<close>

theorem restruct_candidates_and_keys_witness:
  "fst (restruct_loop example_lib (\<lambda>n. Return (py ''{\"0\": \"pq\", \"1\": \"rs\"}''))
          (shreds_in_of example_group) (py ''wxyz'') 0 [])
     = replicate 11 (0, [(py ''0'', JStr (py ''pq'')), (py ''1'', JStr (py ''rs''))])
   \<and> (\<exists>st tree'. restruct example_lib (\<lambda>n. Return (py ''{\"0\": \"pq\", \"1\": \"rs\"}''))
          example_tree example_group (py ''abcd'') (py ''wxyz'') = (Inr st, tree', 11))
   \<and> validate_fit_in example_lib (shreds_in_of example_group) (py ''wxyz'') [(py ''0'', JNull)]
       = Inr (0, LengthNotMatch 2 1)
   \<and> fst (restruct_loop example_lib (\<lambda>n. Return (py ''{\"0\": null}''))
          (shreds_in_of example_group) (py ''wxyz'') 0 [])
     = replicate 11 (0, [(py ''0'', JNull)])
   \<and> \<not> (\<exists>st tree'. restruct example_lib (\<lambda>n. Return (py ''{\"0\": null}''))
          example_tree example_group (py ''abcd'') (py ''wxyz'') = (Inr st, tree', 11))"
proof -
  let ?so = "[(py ''0'', JStr (py ''pq'')), (py ''1'', JStr (py ''rs''))]"
  have lens: "length (cids example_group) = group_len example_group"
    by (simp add: example_group_def group_len_def)
  have ne: "replicate 11 (0::real, so) \<noteq> []" for so :: jobj
    by simp
  have keys: "keys_index_group example_lib example_group
                 (snd (py_max fst (replicate 11 (0::real, ?so))))
              \<and> values_are_str (snd (py_max fst (replicate 11 (0::real, ?so))))"
    unfolding example_best snd_conv using example_keys_01 by simp
  have two: "group_len example_group = 2"
    by (simp add: example_group_def group_len_def)
  note inst = restruct_candidates_and_keys
    [OF example_loop_01_other lens, of example_tree "py ''abcd''"]
  from inst ne example_group_in_tree keys
  have ret: "\<exists>st tree'. restruct example_lib (\<lambda>n. Return (py ''{\"0\": \"pq\", \"1\": \"rs\"}''))
          example_tree example_group (py ''abcd'') (py ''wxyz'') = (Inr st, tree', 11)"
    by blast
  have one: "length [(py ''0'', JNull)] \<noteq> group_len example_group"
    by (simp add: two)
  from inst one
  have "validate_fit_in example_lib (shreds_in_of example_group) (py ''wxyz'')
         [(py ''0'', JNull)]
       = Inr (0, LengthNotMatch (group_len example_group) (length [(py ''0'', JNull)]))"
    by blast
  then have mis: "validate_fit_in example_lib (shreds_in_of example_group) (py ''wxyz'')
         [(py ''0'', JNull)] = Inr (0, LengthNotMatch 2 1)"
    by (simp add: two)
  note inst_null = restruct_candidates_and_keys
    [OF example_loop_null lens, of "py ''wxyz''" example_tree "py ''abcd''"]
  have bad: "\<not> values_are_str (snd (py_max fst (replicate 11 (0::real, [(py ''0'', JNull)]))))"
    unfolding example_best snd_conv by (simp add: values_are_str_def)
  from inst_null ne example_group_in_tree bad
  have raises: "\<not> (\<exists>st tree'. restruct example_lib (\<lambda>n. Return (py ''{\"0\": null}''))
          example_tree example_group (py ''abcd'') (py ''wxyz'') = (Inr st, tree', 11))"
    by blast
  from ret mis raises show ?thesis
    by (simp add: example_loop_01_other example_loop_null)
qed

section \<open>translate.py: the translation of a segment and the pipeline\<close>
























end
